theory Spec2Isabelle
  imports Main "HOL-Library.Word" "HOL-Library.Multiset"
begin

section \<open>Go runtime primitives used by the thread pools\<close>

text \<open>
  Both pools of \<^verbatim>\<open>thread_pool/\<close> are built from buffered channels, a
  \<^verbatim>\<open>sync.WaitGroup\<close>, and (the dynamic pool) a \<^verbatim>\<open>sync.Once\<close> and two atomics.
  A goroutine is a program counter; the scheduler is an explicit list of actions, so that
  every interleaving of the goroutines is a run of the model. One action is one access to
  shared state. An operation that cannot proceed yet is \<open>Disabled\<close>; a run-time panic
  (which ends the Go process) is \<open>Fault\<close>.

  A \<^verbatim>\<open>Task\<close> is a value of any type \<open>'a\<close>; its \<^verbatim>\<open>Execute()\<close> is taken to return, and
  the call is recorded in a log. The calls of \<^verbatim>\<open>log.Printf\<close> change nothing of the pools
  and are left out. The \<^verbatim>\<open>WaitGroup\<close> is its counter: \<^verbatim>\<open>Add\<close> and \<^verbatim>\<open>Done\<close> change
  it (a negative counter panics), \<^verbatim>\<open>Wait\<close> proceeds when it is zero.
\<close>

datatype panic =
    SendOnClosedChannel
  | CloseOfClosedChannel
  | NegativeWaitGroupCounter
  | NilTask

datatype 'a outcome = Next 'a | Fault panic | Disabled

record 'a chan =
  ch_buf :: "'a list"
  ch_cap :: nat
  ch_closed :: bool

definition make_chan :: "nat \<Rightarrow> 'a chan" where
  "make_chan n = \<lparr>ch_buf = [], ch_cap = n, ch_closed = False\<rparr>"

text \<open>\<^verbatim>\<open>c <- x\<close>: panics on a closed channel, waits while the buffer is full.\<close>

definition chan_send :: "'a chan \<Rightarrow> 'a \<Rightarrow> 'a chan outcome" where
  "chan_send c x =
     (if ch_closed c then Fault SendOnClosedChannel
      else if length (ch_buf c) < ch_cap c then Next (c\<lparr>ch_buf := ch_buf c @ [x]\<rparr>)
      else Disabled)"

text \<open>\<^verbatim>\<open>x, ok := <-c\<close>: the oldest buffered value; on a closed and drained channel
  the zero value with \<^verbatim>\<open>ok = false\<close> (here \<open>None\<close>); waits otherwise.\<close>

definition chan_recv :: "'a chan \<Rightarrow> ('a option \<times> 'a chan) outcome" where
  "chan_recv c =
     (case ch_buf c of
        x # xs \<Rightarrow> Next (Some x, c\<lparr>ch_buf := xs\<rparr>)
      | [] \<Rightarrow> if ch_closed c then Next (None, c) else Disabled)"

text \<open>\<^verbatim>\<open>close(c)\<close>: panics when the channel is closed already.\<close>

definition chan_close :: "'a chan \<Rightarrow> 'a chan outcome" where
  "chan_close c =
     (if ch_closed c then Fault CloseOfClosedChannel else Next (c\<lparr>ch_closed := True\<rparr>))"

text \<open>\<^verbatim>\<open>sync.Once\<close>: the first caller runs the function while later callers wait
  for it to finish; after that every caller returns at once.\<close>

datatype once = Once_fresh | Once_running | Once_done

text \<open>A \<^verbatim>\<open>select\<close> with several ready cases takes any one of them; the action says
  which: the case on the task channel or the case on the shutdown channel. The mixed worker
  of the static pool has two task channels, hence the third value.\<close>

datatype select_case = Case_task | Case_close | Case_normal

section \<open>The dynamic pool: \<^verbatim>\<open>dynamic_thread_pool.go\<close>\<close>

record 'a DynamicThreadPool =
  maxPriorityWorkers :: "32 word"
  maxNormalWorkers :: "32 word"
  priorityCh :: "'a chan"
  normalCh :: "'a chan"
  closeCh :: "unit chan"
  wg :: int
  prioritySem :: "unit chan"
  normalSem :: "unit chan"
  workerCount :: "32 word"
  stopOnce :: once
  isStopped :: bool

text \<open>\<^verbatim>\<open>NewDynamicThreadPool\<close>: \<open>None\<close> is the nil pointer. The capacities are
  computed in \<^verbatim>\<open>uint32\<close>, so the products wrap.\<close>

definition NewDynamicThreadPool :: "32 word \<Rightarrow> 32 word \<Rightarrow> 'a DynamicThreadPool option" where
  "NewDynamicThreadPool maxPriority maxNormal =
     (if maxPriority = 0 then None
      else if maxNormal = 0 then None
      else Some \<lparr>maxPriorityWorkers = maxPriority,
                 maxNormalWorkers = maxNormal,
                 priorityCh = make_chan (unat (maxPriority * 2)),
                 normalCh = make_chan (unat (maxNormal * 10)),
                 closeCh = make_chan 0,
                 wg = 0,
                 prioritySem = make_chan (unat maxPriority),
                 normalSem = make_chan (unat maxNormal),
                 workerCount = 0,
                 stopOnce = Once_fresh,
                 isStopped = False\<rparr>)"

text \<open>The source has every worker function twice, once per class; the model takes the
  class as the flag \<open>urgent\<close> of \<^verbatim>\<open>Schedule\<close> and selects the channel with it.\<close>

definition taskCh :: "bool \<Rightarrow> 'a DynamicThreadPool \<Rightarrow> 'a chan" where
  "taskCh urgent p = (if urgent then priorityCh p else normalCh p)"

definition set_taskCh :: "bool \<Rightarrow> 'a chan \<Rightarrow> 'a DynamicThreadPool \<Rightarrow> 'a DynamicThreadPool" where
  "set_taskCh urgent c p = (if urgent then p\<lparr>priorityCh := c\<rparr> else p\<lparr>normalCh := c\<rparr>)"

definition sem :: "bool \<Rightarrow> 'a DynamicThreadPool \<Rightarrow> unit chan" where
  "sem urgent p = (if urgent then prioritySem p else normalSem p)"

definition set_sem :: "bool \<Rightarrow> unit chan \<Rightarrow> 'a DynamicThreadPool \<Rightarrow> 'a DynamicThreadPool" where
  "set_sem urgent c p = (if urgent then p\<lparr>prioritySem := c\<rparr> else p\<lparr>normalSem := c\<rparr>)"

definition maxWorkers :: "bool \<Rightarrow> 'a DynamicThreadPool \<Rightarrow> 32 word" where
  "maxWorkers urgent p = (if urgent then maxPriorityWorkers p else maxNormalWorkers p)"

text \<open>The program counters of the goroutines, one per access to shared state.
  \<open>Schedule_*\<close> and \<open>Launch_*\<close> are a caller inside \<^verbatim>\<open>Schedule\<close> and
  \<^verbatim>\<open>tryLaunch...Worker\<close>, \<open>Worker_*\<close> a goroutine running
  \<^verbatim>\<open>priorityWorkerTask\<close> or \<^verbatim>\<open>normalWorkerTask\<close> (with its deferred function),
  \<open>Stop_*\<close> a caller inside \<^verbatim>\<open>Stop\<close>.\<close>

datatype 'a pc =
    Schedule_check bool 'a
  | Schedule_select bool 'a
  | Launch_check bool
  | Launch_acquire bool
  | Launch_count bool
  | Launch_wg bool
  | Launch_go bool
  | Schedule_ret bool
  | Worker_select bool
  | Worker_exec bool 'a
  | Worker_release bool
  | Worker_count bool
  | Worker_wg bool
  | Worker_exit
  | Stop_once
  | Stop_store
  | Stop_closeCh
  | Stop_wait
  | Stop_closeP
  | Stop_closeN
  | Stop_closeSemP
  | Stop_closeSemN
  | Stop_onceDone
  | Stop_ret

text \<open>The pool with its goroutines. \<open>executed\<close> logs the calls of
  \<^verbatim>\<open>task.Execute()\<close> (taken to return normally) in the order they happen;
  \<open>accepted\<close> is a history variable logging the tasks whose send on a task channel went
  through.\<close>

record 'a world =
  pool :: "'a DynamicThreadPool"
  goroutines :: "'a pc list"
  executed :: "'a list"
  accepted :: "'a list"

definition new_world :: "'a DynamicThreadPool \<Rightarrow> 'a world" where
  "new_world p = \<lparr>pool = p, goroutines = [], executed = [], accepted = []\<rparr>"

text \<open>One step of one goroutine: its next program counter, the goroutines it starts, and
  the world with the shared state updated.\<close>

fun thread_step :: "'a world \<Rightarrow> 'a pc \<Rightarrow> select_case \<Rightarrow> ('a pc \<times> 'a pc list \<times> 'a world) outcome" where
  "thread_step w (Schedule_check urgent item) c =
     (if isStopped (pool w) then Next (Schedule_ret False, [], w)
      else Next (Schedule_select urgent item, [], w))"
| "thread_step w (Schedule_select urgent item) Case_task =
     (case chan_send (taskCh urgent (pool w)) item of
        Next ch \<Rightarrow> Next (Launch_check urgent, [],
                    w\<lparr>pool := set_taskCh urgent ch (pool w), accepted := accepted w @ [item]\<rparr>)
      | Fault f \<Rightarrow> Fault f
      | Disabled \<Rightarrow> Disabled)"
| "thread_step w (Schedule_select urgent item) Case_close =
     (case chan_recv (closeCh (pool w)) of
        Next (x, ch) \<Rightarrow> Next (Schedule_ret False, [], w\<lparr>pool := (pool w)\<lparr>closeCh := ch\<rparr>\<rparr>)
      | Fault f \<Rightarrow> Fault f
      | Disabled \<Rightarrow> Disabled)"
| "thread_step w (Schedule_select urgent item) Case_normal = Disabled"
| "thread_step w (Launch_check urgent) c =
     (if isStopped (pool w) then Next (Schedule_ret True, [], w)
      else Next (Launch_acquire urgent, [], w))"
| "thread_step w (Launch_acquire urgent) c =
     (case chan_send (sem urgent (pool w)) () of
        Next ch \<Rightarrow> Next (Launch_count urgent, [], w\<lparr>pool := set_sem urgent ch (pool w)\<rparr>)
      | Fault f \<Rightarrow> Fault f
      | Disabled \<Rightarrow> Disabled)"
| "thread_step w (Launch_count urgent) c =
     Next (Launch_wg urgent, [], w\<lparr>pool := (pool w)\<lparr>workerCount := workerCount (pool w) + 1\<rparr>\<rparr>)"
| "thread_step w (Launch_wg urgent) c =
     Next (Launch_go urgent, [], w\<lparr>pool := (pool w)\<lparr>wg := wg (pool w) + 1\<rparr>\<rparr>)"
| "thread_step w (Launch_go urgent) c = Next (Schedule_ret True, [Worker_select urgent], w)"
| "thread_step w (Schedule_ret b) c = Disabled"
| "thread_step w (Worker_select urgent) Case_close =
     (case chan_recv (closeCh (pool w)) of
        Next (x, ch) \<Rightarrow> Next (Worker_release urgent, [], w\<lparr>pool := (pool w)\<lparr>closeCh := ch\<rparr>\<rparr>)
      | Fault f \<Rightarrow> Fault f
      | Disabled \<Rightarrow> Disabled)"
| "thread_step w (Worker_select urgent) Case_task =
     (case chan_recv (taskCh urgent (pool w)) of
        Next (Some task, ch) \<Rightarrow>
          Next (Worker_exec urgent task, [], w\<lparr>pool := set_taskCh urgent ch (pool w)\<rparr>)
      | Next (None, ch) \<Rightarrow> Next (Worker_release urgent, [], w)
      | Fault f \<Rightarrow> Fault f
      | Disabled \<Rightarrow> Disabled)"
| "thread_step w (Worker_select urgent) Case_normal = Disabled"
| "thread_step w (Worker_exec urgent task) c =
     Next (Worker_release urgent, [], w\<lparr>executed := executed w @ [task]\<rparr>)"
| "thread_step w (Worker_release urgent) c =
     (case chan_recv (sem urgent (pool w)) of
        Next (x, ch) \<Rightarrow> Next (Worker_count urgent, [], w\<lparr>pool := set_sem urgent ch (pool w)\<rparr>)
      | Fault f \<Rightarrow> Fault f
      | Disabled \<Rightarrow> Disabled)"
| "thread_step w (Worker_count urgent) c =
     Next (Worker_wg urgent, [],
       w\<lparr>pool := (pool w)\<lparr>workerCount := workerCount (pool w) + (- 1)\<rparr>\<rparr>)"
| "thread_step w (Worker_wg urgent) c =
     (if wg (pool w) - 1 < 0 then Fault NegativeWaitGroupCounter
      else Next (Worker_exit, [], w\<lparr>pool := (pool w)\<lparr>wg := wg (pool w) - 1\<rparr>\<rparr>))"
| "thread_step w Worker_exit c = Disabled"
| "thread_step w Stop_once c =
     (case stopOnce (pool w) of
        Once_fresh \<Rightarrow> Next (Stop_store, [], w\<lparr>pool := (pool w)\<lparr>stopOnce := Once_running\<rparr>\<rparr>)
      | Once_running \<Rightarrow> Disabled
      | Once_done \<Rightarrow> Next (Stop_ret, [], w))"
| "thread_step w Stop_store c =
     Next (Stop_closeCh, [], w\<lparr>pool := (pool w)\<lparr>isStopped := True\<rparr>\<rparr>)"
| "thread_step w Stop_closeCh c =
     (case chan_close (closeCh (pool w)) of
        Next ch \<Rightarrow> Next (Stop_wait, [], w\<lparr>pool := (pool w)\<lparr>closeCh := ch\<rparr>\<rparr>)
      | Fault f \<Rightarrow> Fault f
      | Disabled \<Rightarrow> Disabled)"
| "thread_step w Stop_wait c =
     (if wg (pool w) = 0 then Next (Stop_closeP, [], w) else Disabled)"
| "thread_step w Stop_closeP c =
     (case chan_close (priorityCh (pool w)) of
        Next ch \<Rightarrow> Next (Stop_closeN, [], w\<lparr>pool := (pool w)\<lparr>priorityCh := ch\<rparr>\<rparr>)
      | Fault f \<Rightarrow> Fault f
      | Disabled \<Rightarrow> Disabled)"
| "thread_step w Stop_closeN c =
     (case chan_close (normalCh (pool w)) of
        Next ch \<Rightarrow> Next (Stop_closeSemP, [], w\<lparr>pool := (pool w)\<lparr>normalCh := ch\<rparr>\<rparr>)
      | Fault f \<Rightarrow> Fault f
      | Disabled \<Rightarrow> Disabled)"
| "thread_step w Stop_closeSemP c =
     (case chan_close (prioritySem (pool w)) of
        Next ch \<Rightarrow> Next (Stop_closeSemN, [], w\<lparr>pool := (pool w)\<lparr>prioritySem := ch\<rparr>\<rparr>)
      | Fault f \<Rightarrow> Fault f
      | Disabled \<Rightarrow> Disabled)"
| "thread_step w Stop_closeSemN c =
     (case chan_close (normalSem (pool w)) of
        Next ch \<Rightarrow> Next (Stop_onceDone, [], w\<lparr>pool := (pool w)\<lparr>normalSem := ch\<rparr>\<rparr>)
      | Fault f \<Rightarrow> Fault f
      | Disabled \<Rightarrow> Disabled)"
| "thread_step w Stop_onceDone c =
     Next (Stop_ret, [], w\<lparr>pool := (pool w)\<lparr>stopOnce := Once_done\<rparr>\<rparr>)"
| "thread_step w Stop_ret c = Disabled"


text \<open>The scheduler's actions: a new caller enters \<^verbatim>\<open>Schedule\<close> or
  \<^verbatim>\<open>Stop\<close>; goroutine \<open>i\<close> takes its next step (with the \<^verbatim>\<open>select\<close> case to
  take); or, on an empty task channel, a sender waiting in the \<^verbatim>\<open>select\<close> of
  \<^verbatim>\<open>Schedule\<close> hands its task directly to a worker waiting in its \<^verbatim>\<open>select\<close>
  (the only way a send on a channel of capacity 0 goes through). Both wait only while the
  shutdown channel is open.\<close>

datatype 'a action =
    Call_Schedule bool 'a
  | Call_Stop
  | Step nat select_case
  | Handoff nat nat

fun sending :: "'a pc \<Rightarrow> (bool \<times> 'a) option" where
  "sending (Schedule_select urgent item) = Some (urgent, item)"
| "sending _ = None"

fun receiving :: "'a pc \<Rightarrow> bool option" where
  "receiving (Worker_select urgent) = Some urgent"
| "receiving _ = None"

definition handoff :: "'a world \<Rightarrow> nat \<Rightarrow> nat \<Rightarrow> 'a world outcome" where
  "handoff w i j =
     (if i < length (goroutines w) \<and> j < length (goroutines w) then
        (case sending (goroutines w ! i) of
           None \<Rightarrow> Disabled
         | Some (urgent, item) \<Rightarrow>
             if receiving (goroutines w ! j) = Some urgent
                \<and> \<not> ch_closed (closeCh (pool w))
                \<and> \<not> ch_closed (taskCh urgent (pool w))
                \<and> ch_buf (taskCh urgent (pool w)) = []
             then Next (w\<lparr>goroutines :=
                            (goroutines w)[i := Launch_check urgent, j := Worker_exec urgent item],
                          accepted := accepted w @ [item]\<rparr>)
             else Disabled)
      else Disabled)"

definition step :: "'a world \<Rightarrow> 'a action \<Rightarrow> 'a world outcome" where
  "step w a =
     (case a of
        Call_Schedule urgent item \<Rightarrow>
          Next (w\<lparr>goroutines := goroutines w @ [Schedule_check urgent item]\<rparr>)
      | Call_Stop \<Rightarrow> Next (w\<lparr>goroutines := goroutines w @ [Stop_once]\<rparr>)
      | Step i c \<Rightarrow>
          if i < length (goroutines w) then
            (case thread_step w (goroutines w ! i) c of
               Next (pc', spawned, w') \<Rightarrow>
                 Next (w'\<lparr>goroutines := (goroutines w)[i := pc'] @ spawned\<rparr>)
             | Fault f \<Rightarrow> Fault f
             | Disabled \<Rightarrow> Disabled)
          else Disabled
      | Handoff i j \<Rightarrow> handoff w i j)"

text \<open>A run stops at the first action that faults or cannot be taken.\<close>

fun run :: "'a world \<Rightarrow> 'a action list \<Rightarrow> 'a world outcome" where
  "run w [] = Next w"
| "run w (a # as) =
     (case step w a of
        Next w' \<Rightarrow> run w' as
      | Fault f \<Rightarrow> Fault f
      | Disabled \<Rightarrow> Disabled)"

subsection \<open>Counting goroutines\<close>

text \<open>A goroutine holds a slot of the semaphore of its class from the send in
  \<^verbatim>\<open>tryLaunch...Worker\<close> to the receive in the worker's deferred function.\<close>

fun holds_slot :: "bool \<Rightarrow> 'a pc \<Rightarrow> nat" where
  "holds_slot u (Launch_count urgent) = (if urgent = u then 1 else 0)"
| "holds_slot u (Launch_wg urgent) = (if urgent = u then 1 else 0)"
| "holds_slot u (Launch_go urgent) = (if urgent = u then 1 else 0)"
| "holds_slot u (Worker_select urgent) = (if urgent = u then 1 else 0)"
| "holds_slot u (Worker_exec urgent task) = (if urgent = u then 1 else 0)"
| "holds_slot u (Worker_release urgent) = (if urgent = u then 1 else 0)"
| "holds_slot u _ = 0"

fun is_worker :: "bool \<Rightarrow> 'a pc \<Rightarrow> bool" where
  "is_worker u (Worker_select urgent) = (urgent = u)"
| "is_worker u (Worker_exec urgent task) = (urgent = u)"
| "is_worker u (Worker_release urgent) = (urgent = u)"
| "is_worker u _ = False"

fun is_executing :: "bool \<Rightarrow> 'a pc \<Rightarrow> bool" where
  "is_executing u (Worker_exec urgent task) = (urgent = u)"
| "is_executing u _ = False"

definition slots_held :: "bool \<Rightarrow> 'a pc list \<Rightarrow> nat" where
  "slots_held u gs = sum_list (map (holds_slot u) gs)"

definition live_workers :: "bool \<Rightarrow> 'a world \<Rightarrow> nat" where
  "live_workers u w = length (filter (is_worker u) (goroutines w))"

definition executing :: "bool \<Rightarrow> 'a world \<Rightarrow> nat" where
  "executing u w = length (filter (is_executing u) (goroutines w))"

definition sem_inv :: "bool \<Rightarrow> 'a world \<Rightarrow> bool" where
  "sem_inv u w \<longleftrightarrow>
     slots_held u (goroutines w) = length (ch_buf (sem u (pool w)))
     \<and> length (ch_buf (sem u (pool w))) \<le> ch_cap (sem u (pool w))
     \<and> ch_cap (sem u (pool w)) = unat (maxWorkers u (pool w))"

definition sem_bound :: "bool \<Rightarrow> 32 word \<Rightarrow> 'a world \<Rightarrow> bool" where
  "sem_bound u m w \<longleftrightarrow> sem_inv u w \<and> maxWorkers u (pool w) = m"

text \<open>The control flow of a worker, for stating that it runs once from top to bottom:
  its position, whether it is a worker of class \<open>u\<close> that has not finished, and what it
  still has to do in its deferred function.\<close>

fun worker_rank :: "'a pc \<Rightarrow> nat" where
  "worker_rank (Worker_select urgent) = 0"
| "worker_rank (Worker_exec urgent task) = 1"
| "worker_rank (Worker_release urgent) = 2"
| "worker_rank (Worker_count urgent) = 3"
| "worker_rank (Worker_wg urgent) = 4"
| "worker_rank _ = 5"

fun worker_pc :: "bool \<Rightarrow> 'a pc \<Rightarrow> bool" where
  "worker_pc u (Worker_select urgent) = (urgent = u)"
| "worker_pc u (Worker_exec urgent task) = (urgent = u)"
| "worker_pc u (Worker_release urgent) = (urgent = u)"
| "worker_pc u (Worker_count urgent) = (urgent = u)"
| "worker_pc u (Worker_wg urgent) = (urgent = u)"
| "worker_pc u _ = False"

fun owes_release :: "'a pc \<Rightarrow> nat" where
  "owes_release (Worker_select urgent) = 1"
| "owes_release (Worker_exec urgent task) = 1"
| "owes_release (Worker_release urgent) = 1"
| "owes_release _ = 0"

fun owes_count :: "'a pc \<Rightarrow> 32 word" where
  "owes_count (Worker_select urgent) = 1"
| "owes_count (Worker_exec urgent task) = 1"
| "owes_count (Worker_release urgent) = 1"
| "owes_count (Worker_count urgent) = 1"
| "owes_count _ = 0"

fun executes :: "'a pc \<Rightarrow> 'a list" where
  "executes (Worker_exec urgent task) = [task]"
| "executes _ = []"

fun dequeues :: "'a pc \<Rightarrow> 'a list" where
  "dequeues (Worker_exec urgent task) = [task]"
| "dequeues _ = []"

text \<open>The callers of \<^verbatim>\<open>Stop\<close> inside the function passed to \<^verbatim>\<open>stopOnce.Do\<close>, and
  those of them past \<^verbatim>\<open>isStopped.Store(true)\<close>.\<close>

fun in_once :: "'a pc \<Rightarrow> nat" where
  "in_once Stop_store = 1"
| "in_once Stop_closeCh = 1"
| "in_once Stop_wait = 1"
| "in_once Stop_closeP = 1"
| "in_once Stop_closeN = 1"
| "in_once Stop_closeSemP = 1"
| "in_once Stop_closeSemN = 1"
| "in_once Stop_onceDone = 1"
| "in_once _ = 0"

fun after_store :: "'a pc \<Rightarrow> bool" where
  "after_store Stop_closeCh = True"
| "after_store Stop_wait = True"
| "after_store Stop_closeP = True"
| "after_store Stop_closeN = True"
| "after_store Stop_closeSemP = True"
| "after_store Stop_closeSemN = True"
| "after_store Stop_onceDone = True"
| "after_store _ = False"

definition callers_in_once :: "'a world \<Rightarrow> nat" where
  "callers_in_once w = sum_list (map in_once (goroutines w))"

definition stop_inv :: "'a world \<Rightarrow> bool" where
  "stop_inv w \<longleftrightarrow>
     callers_in_once w = (if stopOnce (pool w) = Once_running then 1 else 0)
     \<and> (stopOnce (pool w) = Once_done \<longrightarrow> isStopped (pool w))
     \<and> (\<forall>g \<in> set (goroutines w). after_store g \<longrightarrow> isStopped (pool w))
     \<and> (Stop_ret \<in> set (goroutines w) \<longrightarrow> stopOnce (pool w) = Once_done)"

text \<open>\<open>k\<close> further calls of \<^verbatim>\<open>Stop\<close>, one after the other, each run to its return;
  \<open>n\<close> is the number of goroutines so far, hence the index of the next caller.\<close>

fun stop_calls :: "nat \<Rightarrow> nat \<Rightarrow> 'a action list" where
  "stop_calls n 0 = []"
| "stop_calls n (Suc k) = Call_Stop # Step n Case_close # stop_calls (Suc n) k"

text \<open>The tasks a goroutine has in hand, and the tasks that can still be executed: those
  in the two queues and those in the hand of a caller past the check of \<^verbatim>\<open>Schedule\<close> or
  of a worker.\<close>

fun holds_task :: "'a pc \<Rightarrow> 'a list" where
  "holds_task (Schedule_select urgent item) = [item]"
| "holds_task (Worker_exec urgent task) = [task]"
| "holds_task _ = []"

definition pending :: "'a world \<Rightarrow> 'a set" where
  "pending w = set (ch_buf (priorityCh (pool w))) \<union> set (ch_buf (normalCh (pool w)))
                 \<union> set (concat (map holds_task (goroutines w)))"

definition queued :: "'a world \<Rightarrow> 'a set" where
  "queued w = set (ch_buf (priorityCh (pool w))) \<union> set (ch_buf (normalCh (pool w)))"

text \<open>The caller of \<^verbatim>\<open>Schedule(urgent, item)\<close> that is goroutine \<open>n\<close> has not passed
  the check of \<^verbatim>\<open>isStopped\<close>, or has returned \<^verbatim>\<open>false\<close>.\<close>

definition rejected :: "nat \<Rightarrow> bool \<Rightarrow> 'a \<Rightarrow> 'a world \<Rightarrow> bool" where
  "rejected n urgent item w \<longleftrightarrow>
     n < length (goroutines w)
     \<and> (goroutines w ! n = Schedule_check urgent item \<or> goroutines w ! n = Schedule_ret False)"

text \<open>Where the accepted tasks are: in a queue, in the hand of a worker about to call
  \<^verbatim>\<open>Execute\<close>, or executed.\<close>

definition in_flight :: "'a world \<Rightarrow> 'a multiset" where
  "in_flight w = sum_list (map (\<lambda>g. mset (executes g)) (goroutines w))"

definition stored :: "'a world \<Rightarrow> 'a multiset" where
  "stored w = mset (ch_buf (priorityCh (pool w))) + mset (ch_buf (normalCh (pool w)))
                + mset (executed w)"

definition accounted :: "'a world \<Rightarrow> bool" where
  "accounted w \<longleftrightarrow> mset (accepted w) = stored w + in_flight w"

text \<open>The goroutines counted by the \<^verbatim>\<open>WaitGroup\<close>: from \<^verbatim>\<open>wg.Add(1)\<close> in
  \<^verbatim>\<open>tryLaunch...Worker\<close> to \<^verbatim>\<open>wg.Done()\<close> in the worker's deferred function.\<close>

fun wg_held :: "'a pc \<Rightarrow> nat" where
  "wg_held (Launch_go urgent) = 1"
| "wg_held (Worker_select urgent) = 1"
| "wg_held (Worker_exec urgent task) = 1"
| "wg_held (Worker_release urgent) = 1"
| "wg_held (Worker_count urgent) = 1"
| "wg_held (Worker_wg urgent) = 1"
| "wg_held _ = 0"

definition wg_inv :: "'a world \<Rightarrow> bool" where
  "wg_inv w \<longleftrightarrow> wg (pool w) = int (sum_list (map wg_held (goroutines w)))
                 \<and> ch_buf (closeCh (pool w)) = []"

text \<open>The steps goroutine \<open>i\<close> has left when it is a worker past its \<^verbatim>\<open>select\<close>, and
  the steps of a caller from the check of \<^verbatim>\<open>tryLaunch...Worker\<close> to its return.\<close>

fun finish :: "nat \<Rightarrow> 'a pc \<Rightarrow> 'a action list" where
  "finish i (Worker_exec urgent task) =
     [Step i Case_task, Step i Case_task, Step i Case_task, Step i Case_task]"
| "finish i (Worker_release urgent) = [Step i Case_task, Step i Case_task, Step i Case_task]"
| "finish i (Worker_count urgent) = [Step i Case_task, Step i Case_task]"
| "finish i (Worker_wg urgent) = [Step i Case_task]"
| "finish i _ = []"


text \<open>What the worker \<open>i\<close> of class \<open>u\<close> has done between the world \<open>w\<close>, where it was at
  \<open>g\<close>, and the world \<open>w'\<close>: it has exited; it has executed the task it had in hand, if
  any; it has given back the slot and the count it owed; it has called \<^verbatim>\<open>wg.Done()\<close>;
  and it has touched nothing else.\<close>

definition worker_done :: "nat \<Rightarrow> bool \<Rightarrow> 'a pc \<Rightarrow> 'a world \<Rightarrow> 'a world \<Rightarrow> bool" where
  "worker_done i u g w w' \<longleftrightarrow>
     goroutines w' = (goroutines w)[i := Worker_exit]
     \<and> executed w' = executed w @ executes g
     \<and> accepted w' = accepted w
     \<and> length (ch_buf (sem u (pool w'))) + owes_release g = length (ch_buf (sem u (pool w)))
     \<and> sem (\<not> u) (pool w') = sem (\<not> u) (pool w)
     \<and> workerCount (pool w') + owes_count g = workerCount (pool w)
     \<and> wg (pool w') + 1 = wg (pool w)
     \<and> priorityCh (pool w') = priorityCh (pool w)
     \<and> normalCh (pool w') = normalCh (pool w)"

section \<open>The static pool: \<^verbatim>\<open>static_thread_pool.go\<close>\<close>

record 'a StaticThreadPool =
  s_worker :: "32 word"
  s_close :: "int chan"
  s_wg :: int
  s_priorityCh :: "'a chan"
  s_normalCh :: "'a chan"

text \<open>\<^verbatim>\<open>NewStaticThreadPool\<close>: \<open>None\<close> is the nil pointer; the capacities are
  \<^verbatim>\<open>uint32\<close> products.\<close>

definition NewStaticThreadPool :: "32 word \<Rightarrow> 'a StaticThreadPool option" where
  "NewStaticThreadPool cnt =
     (if cnt = 0 then None
      else Some \<lparr>s_worker = cnt,
                 s_close = make_chan (unat cnt),
                 s_wg = 0,
                 s_priorityCh = make_chan (unat (cnt * 2)),
                 s_normalCh = make_chan (unat (cnt * 5000))\<rparr>)"

text \<open>\<^verbatim>\<open>highPriority := (t.worker * 10) / 100\<close>, in \<^verbatim>\<open>uint32\<close>.\<close>

definition highPriority :: "32 word \<Rightarrow> 32 word" where
  "highPriority worker = (worker * 10) div 100"

definition s_taskCh :: "bool \<Rightarrow> 'a StaticThreadPool \<Rightarrow> 'a chan" where
  "s_taskCh urgent p = (if urgent then s_priorityCh p else s_normalCh p)"

definition s_set_taskCh :: "bool \<Rightarrow> 'a chan \<Rightarrow> 'a StaticThreadPool \<Rightarrow> 'a StaticThreadPool" where
  "s_set_taskCh urgent c p = (if urgent then p\<lparr>s_priorityCh := c\<rparr> else p\<lparr>s_normalCh := c\<rparr>)"

text \<open>The program counters: \<open>SStart_*\<close> a caller inside \<^verbatim>\<open>Start\<close> (with its locals
  \<^verbatim>\<open>highPriority\<close> and \<^verbatim>\<open>i\<close>), \<open>SStop_*\<close> a caller inside \<^verbatim>\<open>Stop\<close> (with
  \<^verbatim>\<open>i\<close>), \<open>SSchedule_*\<close> a caller inside \<^verbatim>\<open>Schedule\<close>, \<open>Do_*\<close> a worker running
  \<^verbatim>\<open>Do(priority)\<close>. A receive on a closed and drained task channel yields the nil
  \<^verbatim>\<open>Task\<close>, here \<open>None\<close>, and calling \<^verbatim>\<open>Execute\<close> on it panics.\<close>

datatype 'a spc =
    SStart_begin
  | SStart_loop "32 word" "32 word"
  | SStart_go "32 word" "32 word"
  | SStart_ret
  | SStop_loop "32 word"
  | SStop_wait
  | SStop_close
  | SStop_closeP
  | SStop_closeN
  | SStop_ret
  | SSchedule_send bool 'a
  | SSchedule_ret
  | Do_select bool
  | Do_exec bool "'a option"
  | Do_done
  | Do_exit

record 'a sworld =
  s_pool :: "'a StaticThreadPool"
  s_goroutines :: "'a spc list"
  s_executed :: "'a list"
  s_accepted :: "'a list"

definition new_sworld :: "'a StaticThreadPool \<Rightarrow> 'a sworld" where
  "new_sworld p = \<lparr>s_pool = p, s_goroutines = [], s_executed = [], s_accepted = []\<rparr>"

fun s_thread_step :: "'a sworld \<Rightarrow> 'a spc \<Rightarrow> select_case \<Rightarrow> ('a spc \<times> 'a spc list \<times> 'a sworld) outcome" where
  "s_thread_step w SStart_begin c =
     Next (SStart_loop (highPriority (s_worker (s_pool w))) 0, [], w)"
| "s_thread_step w (SStart_loop hp i) c =
     (if i < s_worker (s_pool w)
      then Next (SStart_go hp i, [], w\<lparr>s_pool := (s_pool w)\<lparr>s_wg := s_wg (s_pool w) + 1\<rparr>\<rparr>)
      else Next (SStart_ret, [], w))"
| "s_thread_step w (SStart_go hp i) c = Next (SStart_loop hp (i + 1), [Do_select (i < hp)], w)"
| "s_thread_step w SStart_ret c = Disabled"
| "s_thread_step w (SStop_loop i) c =
     (if i < s_worker (s_pool w)
      then (case chan_send (s_close (s_pool w)) 1 of
              Next ch \<Rightarrow> Next (SStop_loop (i + 1), [], w\<lparr>s_pool := (s_pool w)\<lparr>s_close := ch\<rparr>\<rparr>)
            | Fault f \<Rightarrow> Fault f
            | Disabled \<Rightarrow> Disabled)
      else Next (SStop_wait, [], w))"
| "s_thread_step w SStop_wait c =
     (if s_wg (s_pool w) = 0 then Next (SStop_close, [], w) else Disabled)"
| "s_thread_step w SStop_close c =
     (case chan_close (s_close (s_pool w)) of
        Next ch \<Rightarrow> Next (SStop_closeP, [], w\<lparr>s_pool := (s_pool w)\<lparr>s_close := ch\<rparr>\<rparr>)
      | Fault f \<Rightarrow> Fault f
      | Disabled \<Rightarrow> Disabled)"
| "s_thread_step w SStop_closeP c =
     (case chan_close (s_priorityCh (s_pool w)) of
        Next ch \<Rightarrow> Next (SStop_closeN, [], w\<lparr>s_pool := (s_pool w)\<lparr>s_priorityCh := ch\<rparr>\<rparr>)
      | Fault f \<Rightarrow> Fault f
      | Disabled \<Rightarrow> Disabled)"
| "s_thread_step w SStop_closeN c =
     (case chan_close (s_normalCh (s_pool w)) of
        Next ch \<Rightarrow> Next (SStop_ret, [], w\<lparr>s_pool := (s_pool w)\<lparr>s_normalCh := ch\<rparr>\<rparr>)
      | Fault f \<Rightarrow> Fault f
      | Disabled \<Rightarrow> Disabled)"
| "s_thread_step w SStop_ret c = Disabled"
| "s_thread_step w (SSchedule_send urgent item) c =
     (case chan_send (s_taskCh urgent (s_pool w)) item of
        Next ch \<Rightarrow> Next (SSchedule_ret, [],
                    w\<lparr>s_pool := s_set_taskCh urgent ch (s_pool w),
                      s_accepted := s_accepted w @ [item]\<rparr>)
      | Fault f \<Rightarrow> Fault f
      | Disabled \<Rightarrow> Disabled)"
| "s_thread_step w SSchedule_ret c = Disabled"
| "s_thread_step w (Do_select priority) Case_task =
     (case chan_recv (s_priorityCh (s_pool w)) of
        Next (item, ch) \<Rightarrow>
          Next (Do_exec priority item, [], w\<lparr>s_pool := (s_pool w)\<lparr>s_priorityCh := ch\<rparr>\<rparr>)
      | Fault f \<Rightarrow> Fault f
      | Disabled \<Rightarrow> Disabled)"
| "s_thread_step w (Do_select priority) Case_normal =
     (if priority then Disabled
      else (case chan_recv (s_normalCh (s_pool w)) of
              Next (item, ch) \<Rightarrow>
                Next (Do_exec priority item, [], w\<lparr>s_pool := (s_pool w)\<lparr>s_normalCh := ch\<rparr>\<rparr>)
            | Fault f \<Rightarrow> Fault f
            | Disabled \<Rightarrow> Disabled))"
| "s_thread_step w (Do_select priority) Case_close =
     (case chan_recv (s_close (s_pool w)) of
        Next (x, ch) \<Rightarrow> Next (Do_done, [], w\<lparr>s_pool := (s_pool w)\<lparr>s_close := ch\<rparr>\<rparr>)
      | Fault f \<Rightarrow> Fault f
      | Disabled \<Rightarrow> Disabled)"
| "s_thread_step w (Do_exec priority None) c = Fault NilTask"
| "s_thread_step w (Do_exec priority (Some item)) c =
     Next (Do_select priority, [], w\<lparr>s_executed := s_executed w @ [item]\<rparr>)"
| "s_thread_step w Do_done c =
     (if s_wg (s_pool w) - 1 < 0 then Fault NegativeWaitGroupCounter
      else Next (Do_exit, [], w\<lparr>s_pool := (s_pool w)\<lparr>s_wg := s_wg (s_pool w) - 1\<rparr>\<rparr>))"
| "s_thread_step w Do_exit c = Disabled"

text \<open>The scheduler's actions. A sender blocked in \<^verbatim>\<open>Schedule\<close> on an empty task
  channel hands its task directly to a worker in its \<^verbatim>\<open>select\<close> that reads this
  channel (urgent-only workers read the priority channel only).\<close>

datatype 'a saction =
    SCall_Start
  | SCall_Stop
  | SCall_Schedule bool 'a
  | SStep nat select_case
  | SHandoff nat nat

fun s_sending :: "'a spc \<Rightarrow> (bool \<times> 'a) option" where
  "s_sending (SSchedule_send urgent item) = Some (urgent, item)"
| "s_sending _ = None"

fun s_receiving :: "'a spc \<Rightarrow> bool option" where
  "s_receiving (Do_select priority) = Some priority"
| "s_receiving _ = None"

definition s_handoff :: "'a sworld \<Rightarrow> nat \<Rightarrow> nat \<Rightarrow> 'a sworld outcome" where
  "s_handoff w i j =
     (if i < length (s_goroutines w) \<and> j < length (s_goroutines w) then
        (case (s_sending (s_goroutines w ! i), s_receiving (s_goroutines w ! j)) of
           (Some (urgent, item), Some priority) \<Rightarrow>
             if (urgent \<or> \<not> priority)
                \<and> \<not> ch_closed (s_taskCh urgent (s_pool w))
                \<and> ch_buf (s_taskCh urgent (s_pool w)) = []
             then Next (w\<lparr>s_goroutines :=
                            (s_goroutines w)[i := SSchedule_ret, j := Do_exec priority (Some item)],
                          s_accepted := s_accepted w @ [item]\<rparr>)
             else Disabled
         | _ \<Rightarrow> Disabled)
      else Disabled)"

definition s_step :: "'a sworld \<Rightarrow> 'a saction \<Rightarrow> 'a sworld outcome" where
  "s_step w a =
     (case a of
        SCall_Start \<Rightarrow> Next (w\<lparr>s_goroutines := s_goroutines w @ [SStart_begin]\<rparr>)
      | SCall_Stop \<Rightarrow> Next (w\<lparr>s_goroutines := s_goroutines w @ [SStop_loop 0]\<rparr>)
      | SCall_Schedule urgent item \<Rightarrow>
          Next (w\<lparr>s_goroutines := s_goroutines w @ [SSchedule_send urgent item]\<rparr>)
      | SStep i c \<Rightarrow>
          if i < length (s_goroutines w) then
            (case s_thread_step w (s_goroutines w ! i) c of
               Next (pc', spawned, w') \<Rightarrow>
                 Next (w'\<lparr>s_goroutines := (s_goroutines w)[i := pc'] @ spawned\<rparr>)
             | Fault f \<Rightarrow> Fault f
             | Disabled \<Rightarrow> Disabled)
          else Disabled
      | SHandoff i j \<Rightarrow> s_handoff w i j)"

fun s_run :: "'a sworld \<Rightarrow> 'a saction list \<Rightarrow> 'a sworld outcome" where
  "s_run w [] = Next w"
| "s_run w (a # as) =
     (case s_step w a of
        Next w' \<Rightarrow> s_run w' as
      | Fault f \<Rightarrow> Fault f
      | Disabled \<Rightarrow> Disabled)"

text \<open>What a caller of \<^verbatim>\<open>Stop\<close> has closed when it is about to close the normal
  channel, and when it has returned.\<close>

fun s_closed_ok :: "'a StaticThreadPool \<Rightarrow> 'a spc \<Rightarrow> bool" where
  "s_closed_ok p SStop_closeN = ch_closed (s_priorityCh p)"
| "s_closed_ok p SStop_ret = (ch_closed (s_priorityCh p) \<and> ch_closed (s_normalCh p))"
| "s_closed_ok p _ = True"

definition s_closed_inv :: "'a sworld \<Rightarrow> bool" where
  "s_closed_inv w \<longleftrightarrow> (\<forall>g \<in> set (s_goroutines w). s_closed_ok (s_pool w) g)"

fun s_executes :: "'a spc \<Rightarrow> 'a list" where
  "s_executes (Do_exec priority (Some item)) = [item]"
| "s_executes _ = []"

definition s_in_flight :: "'a sworld \<Rightarrow> 'a multiset" where
  "s_in_flight w = sum_list (map (\<lambda>g. mset (s_executes g)) (s_goroutines w))"

definition s_stored :: "'a sworld \<Rightarrow> 'a multiset" where
  "s_stored w = mset (ch_buf (s_priorityCh (s_pool w))) + mset (ch_buf (s_normalCh (s_pool w)))
                  + mset (s_executed w)"

definition s_accounted :: "'a sworld \<Rightarrow> bool" where
  "s_accounted w \<longleftrightarrow> mset (s_accepted w) = s_stored w + s_in_flight w"

text \<open>A caller of \<^verbatim>\<open>Start\<close> running alone: goroutine \<open>k\<close> takes \<open>n\<close> steps.\<close>

definition alone :: "nat \<Rightarrow> nat \<Rightarrow> 'a saction list" where
  "alone k n = replicate n (SStep k Case_task)"

section \<open>Construction\<close>

text \<open>C5: a zero concurrency parameter yields no pool (nil), for both constructors, and
  strictly positive parameters yield a pool.\<close>

theorem zero_ceiling_rejection:
  "(NewStaticThreadPool cnt = None \<longleftrightarrow> cnt = 0)
   \<and> (NewDynamicThreadPool maxPriority maxNormal = None \<longleftrightarrow> maxPriority = 0 \<or> maxNormal = 0)"
  by (simp add: NewStaticThreadPool_def NewDynamicThreadPool_def)

theorem zero_ceiling_rejection_witness:
  "(NewStaticThreadPool 0 :: nat StaticThreadPool option) = None
   \<and> (NewStaticThreadPool 1 :: nat StaticThreadPool option) \<noteq> None
   \<and> (NewDynamicThreadPool 0 5 :: nat DynamicThreadPool option) = None
   \<and> (NewDynamicThreadPool 5 0 :: nat DynamicThreadPool option) = None
   \<and> (NewDynamicThreadPool 2 3 :: nat DynamicThreadPool option) \<noteq> None"
  using zero_ceiling_rejection [where ?'a = nat and ?'b = nat, of 0 0 5]
    zero_ceiling_rejection [where ?'a = nat and ?'b = nat, of 1 5 0]
    zero_ceiling_rejection [where ?'a = nat and ?'b = nat, of 1 2 3]
  by simp

section \<open>The dynamic pool: the semaphores bound the workers\<close>

lemma sem_updates [simp]:
  "sem u (set_sem u' c p) = (if u = u' then c else sem u p)"
  "sem u (set_taskCh u' d p) = sem u p"
  "sem u (p\<lparr>workerCount := n\<rparr>) = sem u p"
  "sem u (p\<lparr>wg := k\<rparr>) = sem u p"
  "sem u (p\<lparr>closeCh := cc\<rparr>) = sem u p"
  "sem u (p\<lparr>stopOnce := on\<rparr>) = sem u p"
  "sem u (p\<lparr>isStopped := b\<rparr>) = sem u p"
  "sem u (p\<lparr>priorityCh := d\<rparr>) = sem u p"
  "sem u (p\<lparr>normalCh := d\<rparr>) = sem u p"
  "sem u (p\<lparr>prioritySem := c\<rparr>) = (if u then c else sem u p)"
  "sem u (p\<lparr>normalSem := c\<rparr>) = (if u then sem u p else c)"
  by (simp_all add: sem_def set_sem_def set_taskCh_def)

lemma maxWorkers_updates [simp]:
  "maxWorkers u (set_sem u' c p) = maxWorkers u p"
  "maxWorkers u (set_taskCh u' d p) = maxWorkers u p"
  "maxWorkers u (p\<lparr>workerCount := n\<rparr>) = maxWorkers u p"
  "maxWorkers u (p\<lparr>wg := k\<rparr>) = maxWorkers u p"
  "maxWorkers u (p\<lparr>closeCh := cc\<rparr>) = maxWorkers u p"
  "maxWorkers u (p\<lparr>stopOnce := on\<rparr>) = maxWorkers u p"
  "maxWorkers u (p\<lparr>isStopped := b\<rparr>) = maxWorkers u p"
  "maxWorkers u (p\<lparr>priorityCh := d\<rparr>) = maxWorkers u p"
  "maxWorkers u (p\<lparr>normalCh := d\<rparr>) = maxWorkers u p"
  "maxWorkers u (p\<lparr>prioritySem := c\<rparr>) = maxWorkers u p"
  "maxWorkers u (p\<lparr>normalSem := c\<rparr>) = maxWorkers u p"
  by (simp_all add: maxWorkers_def set_sem_def set_taskCh_def)

lemma sem_consts [simp]:
  "sem True p = prioritySem p" "sem False p = normalSem p"
  by (simp_all add: sem_def)

lemma chan_send_Next:
  "chan_send c x = Next c' \<longleftrightarrow>
     \<not> ch_closed c \<and> length (ch_buf c) < ch_cap c \<and> c' = c\<lparr>ch_buf := ch_buf c @ [x]\<rparr>"
  by (auto simp: chan_send_def)

lemma chan_recv_Next:
  "chan_recv c = Next (x, c') \<longleftrightarrow>
     (case ch_buf c of y # ys \<Rightarrow> x = Some y \<and> c' = c\<lparr>ch_buf := ys\<rparr>
      | [] \<Rightarrow> ch_closed c \<and> x = None \<and> c' = c)"
  by (auto simp: chan_recv_def split: list.splits)

lemma chan_close_Next:
  "chan_close c = Next c' \<longleftrightarrow> \<not> ch_closed c \<and> c' = c\<lparr>ch_closed := True\<rparr>"
  by (auto simp: chan_close_def)

lemma thread_step_slots:
  assumes "thread_step w pc c = Next (pc', sp, w')"
    and "holds_slot u pc \<le> length (ch_buf (sem u (pool w)))"
    and "length (ch_buf (sem u (pool w))) \<le> ch_cap (sem u (pool w))"
  shows "holds_slot u pc' + slots_held u sp + length (ch_buf (sem u (pool w)))
           = holds_slot u pc + length (ch_buf (sem u (pool w')))
         \<and> length (ch_buf (sem u (pool w'))) \<le> ch_cap (sem u (pool w'))
         \<and> ch_cap (sem u (pool w')) = ch_cap (sem u (pool w))
         \<and> maxWorkers u (pool w') = maxWorkers u (pool w)"
proof (cases pc)
  case (Schedule_check x11 x12)
  then show ?thesis using assms by (auto simp: slots_held_def split: if_splits)
next
  case (Schedule_select x21 x22)
  then show ?thesis using assms
    by (cases c) (auto simp: slots_held_def chan_send_Next chan_recv_Next split: outcome.splits prod.splits)
next
  case (Launch_check x3)
  then show ?thesis using assms by (auto simp: slots_held_def split: if_splits)
next
  case (Launch_acquire x4)
  then show ?thesis using assms
    by (auto simp: slots_held_def chan_send_Next split: outcome.splits if_splits)
next
  case (Worker_select x9)
  then show ?thesis using assms
    by (cases c) (auto simp: slots_held_def chan_recv_Next split: outcome.splits prod.splits option.splits)
next
  case (Worker_release x11)
  then show ?thesis using assms
    by (auto simp: slots_held_def chan_recv_Next split: outcome.splits prod.splits list.splits if_splits)
next
  case (Worker_wg x)
  then show ?thesis using assms by (auto simp: slots_held_def split: if_splits)
next
  case Stop_once
  then show ?thesis using assms by (auto simp: slots_held_def split: once.splits)
next
  case Stop_wait
  then show ?thesis using assms by (auto simp: slots_held_def split: if_splits)
qed (use assms in \<open>auto simp: slots_held_def chan_close_Next split: outcome.splits\<close>)


lemma sum_list_map_update:
  "i < length gs \<Longrightarrow>
   sum_list (map f (gs[i := x])) + f (gs ! i)
     = sum_list (map f gs) + (f x :: 'b :: comm_monoid_add)"
proof (induction gs arbitrary: i)
  case Nil
  then show ?case by simp
next
  case (Cons g gs)
  then show ?case by (cases i) (auto simp: ac_simps)
qed

lemma slots_held_update:
  "i < length gs \<Longrightarrow>
   slots_held u (gs[i := x] @ sp) + holds_slot u (gs ! i)
     = slots_held u gs + holds_slot u x + slots_held u sp"
  unfolding slots_held_def using sum_list_map_update [of i gs "holds_slot u" x] by simp

lemma holds_slot_le_slots_held:
  "i < length gs \<Longrightarrow> holds_slot u (gs ! i) \<le> slots_held u gs"
proof (induction gs arbitrary: i)
  case Nil
  then show ?case by simp
next
  case (Cons g gs)
  then show ?case by (cases i) (auto simp: slots_held_def trans_le_add2)
qed

lemma slots_held_append [simp]: "slots_held u (gs @ hs) = slots_held u gs + slots_held u hs"
  by (simp add: slots_held_def)

lemma slots_held_Cons [simp]: "slots_held u (g # gs) = holds_slot u g + slots_held u gs"
  by (simp add: slots_held_def)

lemma slots_held_Nil [simp]: "slots_held u [] = 0"
  by (simp add: slots_held_def)

lemma thread_step_sem_bound:
  assumes inv: "sem_bound u m w"
    and i: "i < length (goroutines w)"
    and st: "thread_step w (goroutines w ! i) c = Next (pc', sp, w')"
  shows "sem_bound u m (w'\<lparr>goroutines := (goroutines w)[i := pc'] @ sp\<rparr>)"
proof -
  let ?gs = "goroutines w"
  have held: "slots_held u ?gs = length (ch_buf (sem u (pool w)))"
    and le: "length (ch_buf (sem u (pool w))) \<le> ch_cap (sem u (pool w))"
    and cap: "ch_cap (sem u (pool w)) = unat (maxWorkers u (pool w))"
    and m: "maxWorkers u (pool w) = m"
    using inv by (auto simp: sem_bound_def sem_inv_def)
  have "holds_slot u (?gs ! i) \<le> length (ch_buf (sem u (pool w)))"
    using holds_slot_le_slots_held [OF i, of u] held by simp
  from thread_step_slots [OF st this le]
  have bal: "holds_slot u pc' + slots_held u sp + length (ch_buf (sem u (pool w)))
               = holds_slot u (?gs ! i) + length (ch_buf (sem u (pool w')))"
    and le': "length (ch_buf (sem u (pool w'))) \<le> ch_cap (sem u (pool w'))"
    and cap': "ch_cap (sem u (pool w')) = ch_cap (sem u (pool w))"
    and m': "maxWorkers u (pool w') = maxWorkers u (pool w)"
    by simp_all
  have "slots_held u (?gs[i := pc'] @ sp) = length (ch_buf (sem u (pool w')))"
    using slots_held_update [OF i, of u pc' sp] bal held by simp
  then show ?thesis
    using le' cap' m' cap m by (auto simp: sem_bound_def sem_inv_def)
qed

lemma sending_Some: "sending pc = Some (urgent, item) \<longleftrightarrow> pc = Schedule_select urgent item"
  by (cases pc) auto

lemma receiving_Some: "receiving pc = Some urgent \<longleftrightarrow> pc = Worker_select urgent"
  by (cases pc) auto

lemma handoff_Next:
  "handoff w i j = Next w' \<Longrightarrow>
   \<exists>urgent item. i < length (goroutines w) \<and> j < length (goroutines w)
     \<and> goroutines w ! i = Schedule_select urgent item
     \<and> goroutines w ! j = Worker_select urgent
     \<and> \<not> ch_closed (closeCh (pool w))
     \<and> \<not> ch_closed (taskCh urgent (pool w))
     \<and> ch_buf (taskCh urgent (pool w)) = []
     \<and> w' = w\<lparr>goroutines :=
                  (goroutines w)[i := Launch_check urgent, j := Worker_exec urgent item],
                accepted := accepted w @ [item]\<rparr>"
  by (auto simp: handoff_def sending_Some receiving_Some split: if_splits option.splits)

lemma handoff_sem_bound:
  assumes inv: "sem_bound u m w" and h: "handoff w i j = Next w'"
  shows "sem_bound u m w'"
proof -
  from handoff_Next [OF h] obtain urgent item where
    i: "i < length (goroutines w)" and j: "j < length (goroutines w)"
    and gi: "goroutines w ! i = Schedule_select urgent item"
    and gj: "goroutines w ! j = Worker_select urgent"
    and w': "w' = w\<lparr>goroutines :=
                  (goroutines w)[i := Launch_check urgent, j := Worker_exec urgent item],
                accepted := accepted w @ [item]\<rparr>"
    by blast
  let ?gs = "goroutines w"
  have ne: "i \<noteq> j" using gi gj by auto
  have 1: "slots_held u (?gs[i := Launch_check urgent]) = slots_held u ?gs"
    using slots_held_update [OF i, of u "Launch_check urgent" "[]"] gi by simp
  have j': "j < length (?gs[i := Launch_check urgent])" using j by simp
  have "slots_held u (?gs[i := Launch_check urgent, j := Worker_exec urgent item])
          = slots_held u (?gs[i := Launch_check urgent])"
    using slots_held_update [OF j', of u "Worker_exec urgent item" "[]"] gj ne by simp
  then show ?thesis using inv 1 w' by (auto simp: sem_bound_def sem_inv_def)
qed

lemma step_sem_bound:
  assumes inv: "sem_bound u m w" and st: "step w a = Next w'"
  shows "sem_bound u m w'"
proof (cases a)
  case (Call_Schedule urgent item)
  then show ?thesis using inv st by (auto simp: step_def sem_bound_def sem_inv_def)
next
  case Call_Stop
  then show ?thesis using inv st by (auto simp: step_def sem_bound_def sem_inv_def)
next
  case (Step i c)
  then show ?thesis using inv st thread_step_sem_bound [OF inv, of i c]
    by (auto simp: step_def split: if_splits outcome.splits)
next
  case (Handoff i j)
  then show ?thesis using handoff_sem_bound [OF inv, of i j w'] st by (simp add: step_def)
qed

lemma run_sem_bound:
  "sem_bound u m w \<Longrightarrow> run w as = Next w' \<Longrightarrow> sem_bound u m w'"
proof (induction as arbitrary: w)
  case Nil
  then show ?case by simp
next
  case (Cons a as)
  then show ?case by (auto split: outcome.splits dest: step_sem_bound)
qed

lemma new_world_sem_bound:
  "NewDynamicThreadPool p n = Some pl \<Longrightarrow> sem_bound u (if u then p else n) (new_world pl)"
  by (cases u)
     (auto simp: NewDynamicThreadPool_def new_world_def sem_bound_def sem_inv_def make_chan_def
        maxWorkers_def split: if_splits)

lemma live_workers_le_slots_held: "live_workers u w \<le> slots_held u (goroutines w)"
proof -
  have "length (filter (is_worker u) gs) \<le> slots_held u gs" for gs :: "'a pc list"
  proof (induction gs)
    case Nil
    then show ?case by simp
  next
    case (Cons g gs)
    then show ?case by (cases g) auto
  qed
  then show ?thesis by (simp add: live_workers_def)
qed

lemma executing_le_live_workers: "executing u w \<le> live_workers u w"
proof -
  have "length (filter (is_executing u) gs) \<le> length (filter (is_worker u) gs)"
    for gs :: "'a pc list"
  proof (induction gs)
    case Nil
    then show ?case by simp
  next
    case (Cons g gs)
    then show ?case by (cases g) auto
  qed
  then show ?thesis by (simp add: executing_def live_workers_def)
qed

text \<open>C1: in every run of the dynamic pool from its construction, whatever the calls of
  \<^verbatim>\<open>Schedule\<close> and \<^verbatim>\<open>Stop\<close> and however the goroutines interleave, the workers of
  a class executing a task are among its live workers, every live worker holds a slot of the
  semaphore of its class, and the semaphore is a channel whose capacity is the ceiling of
  the class. So at most \<^verbatim>\<open>maxPriorityWorkers\<close> workers execute urgent tasks and at most
  \<^verbatim>\<open>maxNormalWorkers\<close> execute normal tasks at any time.\<close>

theorem capacity_bound:
  assumes new: "NewDynamicThreadPool maxPriority maxNormal = Some p"
    and run: "run (new_world p) as = Next w"
  shows "executing True w \<le> live_workers True w
       \<and> live_workers True w \<le> length (ch_buf (prioritySem (pool w)))
       \<and> length (ch_buf (prioritySem (pool w))) \<le> ch_cap (prioritySem (pool w))
       \<and> ch_cap (prioritySem (pool w)) = unat maxPriority
       \<and> executing False w \<le> live_workers False w
       \<and> live_workers False w \<le> length (ch_buf (normalSem (pool w)))
       \<and> length (ch_buf (normalSem (pool w))) \<le> ch_cap (normalSem (pool w))
       \<and> ch_cap (normalSem (pool w)) = unat maxNormal"
proof -
  have P: "sem_bound True maxPriority w"
    using run_sem_bound [OF new_world_sem_bound [OF new, of True] run] by simp
  have N: "sem_bound False maxNormal w"
    using run_sem_bound [OF new_world_sem_bound [OF new, of False] run] by simp
  show ?thesis
    using P N live_workers_le_slots_held [of True w] live_workers_le_slots_held [of False w]
      executing_le_live_workers [of True w] executing_le_live_workers [of False w]
    by (auto simp: sem_bound_def sem_inv_def)
qed



theorem capacity_bound_witness:
  "\<exists>p w. NewDynamicThreadPool 1 1 = Some p
     \<and> run (new_world p)
          [Call_Schedule True (7::nat), Step 0 Case_task, Step 0 Case_task, Step 0 Case_task,
           Step 0 Case_task, Step 0 Case_task, Step 0 Case_task, Step 0 Case_task,
           Step 1 Case_task] = Next w
     \<and> executing True w = 1
     \<and> executing True w \<le> live_workers True w
     \<and> live_workers True w \<le> length (ch_buf (prioritySem (pool w)))
     \<and> length (ch_buf (prioritySem (pool w))) \<le> ch_cap (prioritySem (pool w))
     \<and> ch_cap (prioritySem (pool w)) = unat (1 :: 32 word)
     \<and> executing False w \<le> live_workers False w
     \<and> live_workers False w \<le> length (ch_buf (normalSem (pool w)))
     \<and> length (ch_buf (normalSem (pool w))) \<le> ch_cap (normalSem (pool w))
     \<and> ch_cap (normalSem (pool w)) = unat (1 :: 32 word)"
proof -
  obtain p :: "nat DynamicThreadPool" where p: "NewDynamicThreadPool 1 1 = Some p"
    by (simp add: NewDynamicThreadPool_def)
  obtain w where w: "run (new_world p)
          [Call_Schedule True (7::nat), Step 0 Case_task, Step 0 Case_task, Step 0 Case_task,
           Step 0 Case_task, Step 0 Case_task, Step 0 Case_task, Step 0 Case_task,
           Step 1 Case_task] = Next w" and e: "executing True w = 1"
    using p
    by (auto simp: step_def new_world_def NewDynamicThreadPool_def make_chan_def
          chan_send_def chan_recv_def taskCh_def set_taskCh_def sem_def set_sem_def
          executing_def)
  from capacity_bound [OF p w] p w e show ?thesis by blast
qed

lemma taskCh_updates [simp]:
  "taskCh u (set_taskCh u' d p) = (if u = u' then d else taskCh u p)"
  "taskCh u (set_sem u' c p) = taskCh u p"
  "taskCh u (p\<lparr>workerCount := n\<rparr>) = taskCh u p"
  "taskCh u (p\<lparr>wg := k\<rparr>) = taskCh u p"
  "taskCh u (p\<lparr>closeCh := cc\<rparr>) = taskCh u p"
  "taskCh u (p\<lparr>stopOnce := on\<rparr>) = taskCh u p"
  "taskCh u (p\<lparr>isStopped := b\<rparr>) = taskCh u p"
  "taskCh u (p\<lparr>prioritySem := c\<rparr>) = taskCh u p"
  "taskCh u (p\<lparr>normalSem := c\<rparr>) = taskCh u p"
  "taskCh u (p\<lparr>priorityCh := d\<rparr>) = (if u then d else taskCh u p)"
  "taskCh u (p\<lparr>normalCh := d\<rparr>) = (if u then taskCh u p else d)"
  by (simp_all add: taskCh_def set_sem_def set_taskCh_def)

lemma taskCh_consts [simp]:
  "taskCh True p = priorityCh p" "taskCh False p = normalCh p"
  by (simp_all add: taskCh_def)

lemma pool_fields_set [simp]:
  "workerCount (set_sem u c p) = workerCount p"
  "workerCount (set_taskCh u d p) = workerCount p"
  "wg (set_sem u c p) = wg p"
  "wg (set_taskCh u d p) = wg p"
  "isStopped (set_sem u c p) = isStopped p"
  "isStopped (set_taskCh u d p) = isStopped p"
  "stopOnce (set_sem u c p) = stopOnce p"
  "stopOnce (set_taskCh u d p) = stopOnce p"
  "closeCh (set_sem u c p) = closeCh p"
  "closeCh (set_taskCh u d p) = closeCh p"
  by (simp_all add: set_sem_def set_taskCh_def)

lemma reachable_sem_bound:
  assumes "NewDynamicThreadPool maxPriority maxNormal = Some p"
    and "run (new_world p) as = Next w"
  shows "sem_bound u (if u then maxPriority else maxNormal) w"
  using run_sem_bound [OF new_world_sem_bound [OF assms(1)] assms(2)] .

lemma worker_holds_token:
  assumes "sem_bound u m w" and "i < length (goroutines w)"
    and "owes_release (goroutines w ! i) = 1" and "worker_pc u (goroutines w ! i)"
  shows "ch_buf (sem u (pool w)) \<noteq> []"
proof -
  have "holds_slot u (goroutines w ! i) = 1"
    using assms(3,4) by (cases "goroutines w ! i") auto
  then have "1 \<le> slots_held u (goroutines w)"
    using holds_slot_le_slots_held [OF assms(2), of u] by simp
  then show ?thesis using assms(1) by (auto simp: sem_bound_def sem_inv_def)
qed

section \<open>The dynamic pool: one task per worker\<close>

lemma worker_step_effect:
  assumes new: "NewDynamicThreadPool maxPriority maxNormal = Some p"
    and run: "run (new_world p) as = Next w"
    and i: "i < length (goroutines w)"
    and pc: "worker_pc u (goroutines w ! i)"
    and st: "step w (Step i c) = Next w'"
  shows "\<exists>pc'. goroutines w' = (goroutines w)[i := pc']
     \<and> (worker_pc u pc' \<or> pc' = Worker_exit)
     \<and> worker_rank (goroutines w ! i) < worker_rank pc'
     \<and> executed w' = executed w @ executes (goroutines w ! i)
     \<and> ch_buf (taskCh u (pool w)) = dequeues pc' @ ch_buf (taskCh u (pool w'))
     \<and> (dequeues pc' = [] \<or> goroutines w ! i = Worker_select u)
     \<and> taskCh (\<not> u) (pool w') = taskCh (\<not> u) (pool w)
     \<and> length (ch_buf (sem u (pool w'))) + owes_release (goroutines w ! i)
         = length (ch_buf (sem u (pool w))) + owes_release pc'
     \<and> sem (\<not> u) (pool w') = sem (\<not> u) (pool w)
     \<and> workerCount (pool w') + owes_count (goroutines w ! i)
         = workerCount (pool w) + owes_count pc'"
proof -
  have sb: "sem_bound u (if u then maxPriority else maxNormal) w"
    using reachable_sem_bound [OF new run] .
  show ?thesis
  proof (cases "goroutines w ! i")
    case (Worker_select x)
    then show ?thesis using pc st i
      by (cases c)
         (auto simp: step_def chan_recv_Next split: outcome.splits prod.splits option.splits list.splits)
  next
    case (Worker_exec x t)
    then show ?thesis using pc st i by (auto simp: step_def)
  next
    case (Worker_release x)
    then have "ch_buf (sem u (pool w)) \<noteq> []"
      using worker_holds_token [OF sb i] pc by simp
    then show ?thesis using Worker_release pc st i
      by (auto simp: step_def chan_recv_Next split: outcome.splits prod.splits list.splits)
  next
    case (Worker_count x)
    then show ?thesis using pc st i by (auto simp: step_def)
  next
    case (Worker_wg x)
    then show ?thesis using pc st i by (auto simp: step_def split: if_splits)
  qed (use pc in auto)
qed


lemmas eval_simps =
  step_def handoff_def new_world_def NewDynamicThreadPool_def make_chan_def
  chan_send_def chan_recv_def chan_close_def taskCh_def set_taskCh_def sem_def set_sem_def
  maxWorkers_def

section \<open>The dynamic pool: launching a worker\<close>


section \<open>The dynamic pool: a worker runs to its end, a launch goes through\<close>

lemma wg_held_le:
  "i < length gs \<Longrightarrow> wg_held (gs ! i) \<le> sum_list (map wg_held gs)"
proof (induction gs arbitrary: i)
  case Nil
  then show ?case by simp
next
  case (Cons g gs)
  then show ?case by (cases i) (auto simp: trans_le_add2)
qed

lemma thread_step_wg:
  assumes st: "thread_step w pc c = Next (pc', sp, w')"
  shows "int (wg_held pc') + int (sum_list (map wg_held sp)) + wg (pool w)
           = int (wg_held pc) + wg (pool w')
         \<and> (ch_buf (closeCh (pool w)) = [] \<longrightarrow> ch_buf (closeCh (pool w')) = [])"
proof (cases pc)
  case (Schedule_check u t)
  then show ?thesis using st by (auto split: if_splits)
next
  case (Schedule_select u t)
  then show ?thesis using st
    by (cases c) (auto simp: chan_send_Next chan_recv_Next split: outcome.splits prod.splits)
next
  case (Launch_check u)
  then show ?thesis using st by (auto split: if_splits)
next
  case (Launch_acquire u)
  then show ?thesis using st by (auto simp: chan_send_Next split: outcome.splits)
next
  case (Worker_select u)
  then show ?thesis using st
    by (cases c)
       (auto simp: chan_recv_Next split: outcome.splits prod.splits option.splits list.splits)
next
  case (Worker_release u)
  then show ?thesis using st
    by (auto simp: chan_recv_Next split: outcome.splits prod.splits)
next
  case (Worker_wg u)
  then show ?thesis using st by (auto split: if_splits)
next
  case Stop_once
  then show ?thesis using st by (auto split: once.splits)
next
  case Stop_wait
  then show ?thesis using st by (auto split: if_splits)
qed (use st in \<open>auto simp: chan_close_Next split: outcome.splits\<close>)

lemma step_wg_inv:
  assumes inv: "wg_inv w" and st: "step w a = Next w'"
  shows "wg_inv w'"
proof (cases a)
  case (Call_Schedule u t)
  then show ?thesis using inv st by (auto simp: step_def wg_inv_def)
next
  case Call_Stop
  then show ?thesis using inv st by (auto simp: step_def wg_inv_def)
next
  case (Step i c)
  show ?thesis
  proof (cases "i < length (goroutines w)")
    case True
    then obtain pc' sp w1 where ts: "thread_step w (goroutines w ! i) c = Next (pc', sp, w1)"
      and w': "w' = w1\<lparr>goroutines := (goroutines w)[i := pc'] @ sp\<rparr>"
      using st Step by (auto simp: step_def split: outcome.splits)
    have "sum_list (map wg_held ((goroutines w)[i := pc'])) + wg_held (goroutines w ! i)
            = sum_list (map wg_held (goroutines w)) + wg_held pc'"
      using sum_list_map_update [OF True, of wg_held pc'] .
    then show ?thesis using thread_step_wg [OF ts] inv w' by (auto simp: wg_inv_def)
  next
    case False
    then show ?thesis using st Step by (simp add: step_def)
  qed
next
  case (Handoff i j)
  with st have h: "handoff w i j = Next w'" by (simp add: step_def)
  from handoff_Next [OF h] obtain u t where
    i: "i < length (goroutines w)" and j: "j < length (goroutines w)"
    and gi: "goroutines w ! i = Schedule_select u t"
    and gj: "goroutines w ! j = Worker_select u"
    and w': "w' = w\<lparr>goroutines := (goroutines w)[i := Launch_check u, j := Worker_exec u t],
                accepted := accepted w @ [t]\<rparr>"
    by blast
  let ?gs = "goroutines w"
  have ne: "i \<noteq> j" using gi gj by auto
  have j': "j < length (?gs[i := Launch_check u])" using j by simp
  have "sum_list (map wg_held (?gs[i := Launch_check u])) = sum_list (map wg_held ?gs)"
    using sum_list_map_update [OF i, of wg_held "Launch_check u"] gi by simp
  moreover have "sum_list (map wg_held (?gs[i := Launch_check u, j := Worker_exec u t]))
                   = sum_list (map wg_held (?gs[i := Launch_check u]))"
    using sum_list_map_update [OF j', of wg_held "Worker_exec u t"] gj ne by simp
  ultimately show ?thesis using inv w' by (simp add: wg_inv_def)
qed

lemma run_wg_inv: "wg_inv w \<Longrightarrow> run w as = Next w' \<Longrightarrow> wg_inv w'"
proof (induction as arbitrary: w)
  case Nil
  then show ?case by simp
next
  case (Cons a as)
  then show ?case by (auto split: outcome.splits dest: step_wg_inv)
qed

lemma reachable_wg_inv:
  assumes "NewDynamicThreadPool maxPriority maxNormal = Some p"
    and "run (new_world p) as = Next w"
  shows "wg_inv w"
proof -
  have "wg_inv (new_world p)"
    using assms(1)
    by (auto simp: NewDynamicThreadPool_def new_world_def wg_inv_def make_chan_def
        split: if_splits)
  then show ?thesis using run_wg_inv assms(2) by blast
qed


lemma step_Worker_wg:
  assumes "wg_inv w" and i: "i < length (goroutines w)"
    and g: "goroutines w ! i = Worker_wg u"
  shows "step w (Step i c)
         = Next (w\<lparr>pool := (pool w)\<lparr>wg := wg (pool w) - 1\<rparr>,
                   goroutines := (goroutines w)[i := Worker_exit]\<rparr>)"
proof -
  have "1 \<le> sum_list (map wg_held (goroutines w))"
    using wg_held_le [OF i] g by simp
  then have "1 \<le> wg (pool w)" using assms(1) by (simp add: wg_inv_def)
  then show ?thesis using i g by (simp add: step_def)
qed

lemma step_Worker_count:
  assumes i: "i < length (goroutines w)" and g: "goroutines w ! i = Worker_count u"
  shows "step w (Step i c)
         = Next (w\<lparr>pool := (pool w)\<lparr>workerCount := workerCount (pool w) + (- 1)\<rparr>,
                   goroutines := (goroutines w)[i := Worker_wg u]\<rparr>)"
  using i g by (simp add: step_def)

lemma step_Worker_release:
  assumes sb: "sem_bound u m w" and i: "i < length (goroutines w)"
    and g: "goroutines w ! i = Worker_release u"
  shows "step w (Step i c)
         = Next (w\<lparr>pool := set_sem u ((sem u (pool w))\<lparr>ch_buf := tl (ch_buf (sem u (pool w)))\<rparr>)
                            (pool w),
                   goroutines := (goroutines w)[i := Worker_count u]\<rparr>)"
proof -
  have "ch_buf (sem u (pool w)) \<noteq> []"
    using worker_holds_token [OF sb i] g by simp
  then show ?thesis using i g
    by (cases "ch_buf (sem u (pool w))") (simp_all add: step_def chan_recv_def)
qed

lemma step_Worker_exec:
  assumes i: "i < length (goroutines w)" and g: "goroutines w ! i = Worker_exec u t"
  shows "step w (Step i c)
         = Next (w\<lparr>executed := executed w @ [t],
                   goroutines := (goroutines w)[i := Worker_release u]\<rparr>)"
  using i g by (simp add: step_def)

lemma finish_Worker_wg:
  assumes sb: "sem_bound u m w" and wi: "wg_inv w" and i: "i < length (goroutines w)"
    and g: "goroutines w ! i = Worker_wg u"
  shows "\<exists>w'. run w (finish i (Worker_wg u)) = Next w' \<and> worker_done i u (Worker_wg u) w w'"
  using step_Worker_wg [OF wi i g] by (simp add: worker_done_def)

lemma finish_Worker_count:
  assumes sb: "sem_bound u m w" and wi: "wg_inv w" and i: "i < length (goroutines w)"
    and g: "goroutines w ! i = Worker_count u"
  shows "\<exists>w'. run w (finish i (Worker_count u)) = Next w'
           \<and> worker_done i u (Worker_count u) w w'"
proof -
  let ?w1 = "w\<lparr>pool := (pool w)\<lparr>workerCount := workerCount (pool w) + (- 1)\<rparr>,
                goroutines := (goroutines w)[i := Worker_wg u]\<rparr>"
  have st: "step w (Step i Case_task) = Next ?w1" using step_Worker_count [OF i g] .
  have sb1: "sem_bound u m ?w1" using step_sem_bound [OF sb st] .
  have wi1: "wg_inv ?w1" using step_wg_inv [OF wi st] .
  have i1: "i < length (goroutines ?w1)" and g1: "goroutines ?w1 ! i = Worker_wg u"
    using i by simp_all
  from finish_Worker_wg [OF sb1 wi1 i1 g1] obtain w' where
    r: "run ?w1 (finish i (Worker_wg u)) = Next w'" and d: "worker_done i u (Worker_wg u) ?w1 w'"
    by blast
  have "run w (finish i (Worker_count u)) = Next w'" using st r by simp
  moreover have "worker_done i u (Worker_count u) w w'"
    using d by (simp add: worker_done_def)
  ultimately show ?thesis by blast
qed

lemma finish_Worker_release:
  assumes sb: "sem_bound u m w" and wi: "wg_inv w" and i: "i < length (goroutines w)"
    and g: "goroutines w ! i = Worker_release u"
  shows "\<exists>w'. run w (finish i (Worker_release u)) = Next w'
           \<and> worker_done i u (Worker_release u) w w'"
proof -
  let ?w1 = "w\<lparr>pool := set_sem u ((sem u (pool w))\<lparr>ch_buf := tl (ch_buf (sem u (pool w)))\<rparr>)
                            (pool w),
                goroutines := (goroutines w)[i := Worker_count u]\<rparr>"
  have ne: "ch_buf (sem u (pool w)) \<noteq> []"
    using worker_holds_token [OF sb i] g by simp
  have st: "step w (Step i Case_task) = Next ?w1" using step_Worker_release [OF sb i g] .
  have sb1: "sem_bound u m ?w1" using step_sem_bound [OF sb st] .
  have wi1: "wg_inv ?w1" using step_wg_inv [OF wi st] .
  have i1: "i < length (goroutines ?w1)" and g1: "goroutines ?w1 ! i = Worker_count u"
    using i by simp_all
  from finish_Worker_count [OF sb1 wi1 i1 g1] obtain w' where
    r: "run ?w1 (finish i (Worker_count u)) = Next w'"
    and d: "worker_done i u (Worker_count u) ?w1 w'"
    by blast
  have "run w (finish i (Worker_release u)) = Next w'" using st r by simp
  moreover have "worker_done i u (Worker_release u) w w'"
    using d ne by (cases u) (simp_all add: worker_done_def set_sem_def)
  ultimately show ?thesis by blast
qed

lemma finish_Worker_exec:
  assumes sb: "sem_bound u m w" and wi: "wg_inv w" and i: "i < length (goroutines w)"
    and g: "goroutines w ! i = Worker_exec u t"
  shows "\<exists>w'. run w (finish i (Worker_exec u t)) = Next w'
           \<and> worker_done i u (Worker_exec u t) w w'"
proof -
  let ?w1 = "w\<lparr>executed := executed w @ [t],
                goroutines := (goroutines w)[i := Worker_release u]\<rparr>"
  have st: "step w (Step i Case_task) = Next ?w1" using step_Worker_exec [OF i g] .
  have sb1: "sem_bound u m ?w1" using step_sem_bound [OF sb st] .
  have wi1: "wg_inv ?w1" using step_wg_inv [OF wi st] .
  have i1: "i < length (goroutines ?w1)" and g1: "goroutines ?w1 ! i = Worker_release u"
    using i by simp_all
  from finish_Worker_release [OF sb1 wi1 i1 g1] obtain w' where
    r: "run ?w1 (finish i (Worker_release u)) = Next w'"
    and d: "worker_done i u (Worker_release u) ?w1 w'"
    by blast
  have "run w (finish i (Worker_exec u t)) = Next w'" using st r by simp
  moreover have "worker_done i u (Worker_exec u t) w w'"
    using d by (simp add: worker_done_def)
  ultimately show ?thesis by blast
qed

lemma worker_finishes:
  assumes sb: "sem_bound u m w" and wi: "wg_inv w" and i: "i < length (goroutines w)"
    and pc: "worker_pc u (goroutines w ! i)" and ns: "goroutines w ! i \<noteq> Worker_select u"
  shows "\<exists>w'. run w (finish i (goroutines w ! i)) = Next w'
           \<and> worker_done i u (goroutines w ! i) w w'"
proof (cases "goroutines w ! i")
  case (Worker_exec x t)
  then show ?thesis using finish_Worker_exec [OF sb wi i, of t] pc by simp
next
  case (Worker_release x)
  then show ?thesis using finish_Worker_release [OF sb wi i] pc by simp
next
  case (Worker_count x)
  then show ?thesis using finish_Worker_count [OF sb wi i] pc by simp
next
  case (Worker_wg x)
  then show ?thesis using finish_Worker_wg [OF sb wi i] pc by simp
qed (use pc ns in auto)

lemma step_Worker_select:
  assumes wi: "wg_inv w" and i: "i < length (goroutines w)"
    and g: "goroutines w ! i = Worker_select u"
  shows "step w (Step i Case_close)
           = (if ch_closed (closeCh (pool w))
              then Next (w\<lparr>goroutines := (goroutines w)[i := Worker_release u]\<rparr>)
              else Disabled)"
    and "step w (Step i Case_task)
           = (case ch_buf (taskCh u (pool w)) of
                t # rest \<Rightarrow>
                  Next (w\<lparr>pool := set_taskCh u ((taskCh u (pool w))\<lparr>ch_buf := rest\<rparr>) (pool w),
                         goroutines := (goroutines w)[i := Worker_exec u t]\<rparr>)
              | [] \<Rightarrow>
                  if ch_closed (taskCh u (pool w))
                  then Next (w\<lparr>goroutines := (goroutines w)[i := Worker_release u]\<rparr>)
                  else Disabled)"
proof -
  have e: "ch_buf (closeCh (pool w)) = []" using wi by (simp add: wg_inv_def)
  show "step w (Step i Case_close)
           = (if ch_closed (closeCh (pool w))
              then Next (w\<lparr>goroutines := (goroutines w)[i := Worker_release u]\<rparr>)
              else Disabled)"
    using i g e by (simp add: step_def chan_recv_def)
  show "step w (Step i Case_task)
           = (case ch_buf (taskCh u (pool w)) of
                t # rest \<Rightarrow>
                  Next (w\<lparr>pool := set_taskCh u ((taskCh u (pool w))\<lparr>ch_buf := rest\<rparr>) (pool w),
                         goroutines := (goroutines w)[i := Worker_exec u t]\<rparr>)
              | [] \<Rightarrow>
                  if ch_closed (taskCh u (pool w))
                  then Next (w\<lparr>goroutines := (goroutines w)[i := Worker_release u]\<rparr>)
                  else Disabled)"
    using i g by (simp add: step_def chan_recv_def split: list.splits)
qed


text \<open>C6: a worker of class \<open>u\<close> in any reachable state.
  Every step it takes moves it strictly down its body (it never returns to the
  \<^verbatim>\<open>select\<close>) and starts no goroutine; only the step into \<open>Worker_exec\<close> takes a task,
  the head of the queue of its own class; only the step out of \<open>Worker_exec\<close> executes one;
  the queue and the semaphore of the other class never change.
  At its \<^verbatim>\<open>select\<close> it takes the shutdown case exactly when \<^verbatim>\<open>closeCh\<close> is closed,
  and the task case exactly when its queue has a task (which it takes) or is closed and
  empty (then it takes none); otherwise it waits.
  Past the \<^verbatim>\<open>select\<close> it never waits and never faults: run on, it executes the task in
  its hand if it has one, receives one token from its semaphore, decrements the worker
  counter by one, calls \<^verbatim>\<open>wg.Done()\<close> and exits, changing nothing else.\<close>

theorem worker_one_shot:
  assumes new: "NewDynamicThreadPool maxPriority maxNormal = Some p"
    and run: "run (new_world p) as = Next w"
    and i: "i < length (goroutines w)"
    and pc: "worker_pc u (goroutines w ! i)"
  shows "(step w (Step i c) = Next w' \<longrightarrow>
          (\<exists>pc'. goroutines w' = (goroutines w)[i := pc']
             \<and> (worker_pc u pc' \<or> pc' = Worker_exit)
             \<and> worker_rank (goroutines w ! i) < worker_rank pc'
             \<and> executed w' = executed w @ executes (goroutines w ! i)
             \<and> ch_buf (taskCh u (pool w)) = dequeues pc' @ ch_buf (taskCh u (pool w'))
             \<and> (dequeues pc' = [] \<or> goroutines w ! i = Worker_select u)
             \<and> taskCh (\<not> u) (pool w') = taskCh (\<not> u) (pool w)
             \<and> length (ch_buf (sem u (pool w'))) + owes_release (goroutines w ! i)
                 = length (ch_buf (sem u (pool w))) + owes_release pc'
             \<and> sem (\<not> u) (pool w') = sem (\<not> u) (pool w)
             \<and> workerCount (pool w') + owes_count (goroutines w ! i)
                 = workerCount (pool w) + owes_count pc'))
       \<and> (goroutines w ! i = Worker_select u \<longrightarrow>
            step w (Step i Case_close)
              = (if ch_closed (closeCh (pool w))
                 then Next (w\<lparr>goroutines := (goroutines w)[i := Worker_release u]\<rparr>)
                 else Disabled)
            \<and> step w (Step i Case_task)
              = (case ch_buf (taskCh u (pool w)) of
                   t # rest \<Rightarrow>
                     Next (w\<lparr>pool := set_taskCh u ((taskCh u (pool w))\<lparr>ch_buf := rest\<rparr>) (pool w),
                            goroutines := (goroutines w)[i := Worker_exec u t]\<rparr>)
                 | [] \<Rightarrow>
                     if ch_closed (taskCh u (pool w))
                     then Next (w\<lparr>goroutines := (goroutines w)[i := Worker_release u]\<rparr>)
                     else Disabled))
       \<and> (goroutines w ! i \<noteq> Worker_select u \<longrightarrow>
            (\<exists>w''. run w (finish i (goroutines w ! i)) = Next w''
               \<and> worker_done i u (goroutines w ! i) w w''))"
proof -
  have sb: "sem_bound u (if u then maxPriority else maxNormal) w"
    using reachable_sem_bound [OF new run] .
  have wi: "wg_inv w" using reachable_wg_inv [OF new run] .
  show ?thesis
    using worker_step_effect [OF new run i pc, of c w']
      step_Worker_select [OF wi i, of u] worker_finishes [OF sb wi i pc]
    by blast
qed

theorem worker_one_shot_witness:
  "\<exists>p w w''. NewDynamicThreadPool 1 1 = Some p
     \<and> run (new_world p)
          [Call_Schedule True (7::nat), Step 0 Case_task, Step 0 Case_task, Step 0 Case_task,
           Step 0 Case_task, Step 0 Case_task, Step 0 Case_task, Step 0 Case_task,
           Step 1 Case_task] = Next w
     \<and> goroutines w = [Schedule_ret True, Worker_exec True 7]
     \<and> executed w = [] \<and> ch_buf (prioritySem (pool w)) = [()]
     \<and> workerCount (pool w) = 1 \<and> wg (pool w) = 1
     \<and> run w [Step 1 Case_task, Step 1 Case_task, Step 1 Case_task, Step 1 Case_task] = Next w''
     \<and> goroutines w'' = [Schedule_ret True, Worker_exit]
     \<and> executed w'' = [7] \<and> ch_buf (prioritySem (pool w'')) = []
     \<and> workerCount (pool w'') = 0 \<and> wg (pool w'') = 0"
proof -
  obtain p :: "nat DynamicThreadPool" where p: "NewDynamicThreadPool 1 1 = Some p"
    by (simp add: NewDynamicThreadPool_def)
  obtain w where w: "run (new_world p)
          [Call_Schedule True (7::nat), Step 0 Case_task, Step 0 Case_task, Step 0 Case_task,
           Step 0 Case_task, Step 0 Case_task, Step 0 Case_task, Step 0 Case_task,
           Step 1 Case_task] = Next w"
    and g: "goroutines w = [Schedule_ret True, Worker_exec True 7]"
    and v: "executed w = []" "ch_buf (prioritySem (pool w)) = [()]"
      "workerCount (pool w) = 1" "wg (pool w) = 1"
    using p by (auto simp: eval_simps)
  have l: "1 < length (goroutines w)" and g1: "goroutines w ! 1 = Worker_exec True 7"
    using g by simp_all
  have wp: "worker_pc True (goroutines w ! 1)" using g1 by simp
  have ns: "goroutines w ! 1 \<noteq> Worker_select True" using g1 by simp
  from worker_one_shot [OF p w l wp, of Case_task w] ns obtain w'' where
    r: "run w (finish 1 (goroutines w ! 1)) = Next w''"
    and d: "worker_done 1 True (goroutines w ! 1) w w''"
    by blast
  have r': "run w [Step 1 Case_task, Step 1 Case_task, Step 1 Case_task, Step 1 Case_task]
              = Next w''"
    using r g1 by simp
  have "goroutines w'' = [Schedule_ret True, Worker_exit]"
    "executed w'' = [7]" "ch_buf (prioritySem (pool w'')) = []"
    "workerCount (pool w'') = 0" "wg (pool w'') = 0"
    using d g g1 v by (simp_all add: worker_done_def)
  with p w g v r' show ?thesis by blast
qed



section \<open>The dynamic pool: stopping\<close>

lemma in_once_le_callers:
  "i < length (goroutines w) \<Longrightarrow> in_once (goroutines w ! i) \<le> callers_in_once w"
proof -
  have "i < length gs \<Longrightarrow> in_once (gs ! i) \<le> sum_list (map in_once gs)"
    for gs :: "'a pc list"
  proof (induction gs arbitrary: i)
    case Nil
    then show ?case by simp
  next
    case (Cons g gs)
    then show ?case by (cases i) (auto simp: trans_le_add2)
  qed
  then show "i < length (goroutines w) \<Longrightarrow> in_once (goroutines w ! i) \<le> callers_in_once w"
    by (simp add: callers_in_once_def)
qed

lemma thread_step_stop:
  assumes st: "thread_step w pc c = Next (pc', sp, w')"
    and a: "in_once pc = 1 \<longrightarrow> stopOnce (pool w) = Once_running"
    and b: "after_store pc \<longrightarrow> isStopped (pool w)"
  shows "in_once pc' + sum_list (map in_once sp)
           + (if stopOnce (pool w) = Once_running then 1 else 0)
         = in_once pc + (if stopOnce (pool w') = Once_running then 1 else (0::nat))"
    and "isStopped (pool w) \<longrightarrow> isStopped (pool w')"
    and "stopOnce (pool w) = Once_done \<longrightarrow> stopOnce (pool w') = Once_done"
    and "stopOnce (pool w') = Once_done \<longrightarrow> stopOnce (pool w) = Once_done \<or> isStopped (pool w')"
    and "after_store pc' \<longrightarrow> isStopped (pool w')"
    and "\<forall>g \<in> set sp. \<not> after_store g \<and> g \<noteq> Stop_ret"
    and "pc' = Stop_ret \<longrightarrow> stopOnce (pool w') = Once_done"
  using assms
  by (cases pc; cases c;
      auto simp: chan_send_Next chan_recv_Next chan_close_Next
        split: outcome.splits prod.splits option.splits if_splits once.splits)+


lemma thread_step_stop_inv:
  assumes inv: "stop_inv w"
    and i: "i < length (goroutines w)"
    and st: "thread_step w (goroutines w ! i) c = Next (pc', sp, w')"
  shows "stop_inv (w'\<lparr>goroutines := (goroutines w)[i := pc'] @ sp\<rparr>)"
proof -
  let ?gs = "goroutines w"
  let ?pc = "?gs ! i"
  have cnt: "callers_in_once w = (if stopOnce (pool w) = Once_running then 1 else 0)"
    and dn: "stopOnce (pool w) = Once_done \<longrightarrow> isStopped (pool w)"
    and after: "\<forall>g \<in> set ?gs. after_store g \<longrightarrow> isStopped (pool w)"
    and ret: "Stop_ret \<in> set ?gs \<longrightarrow> stopOnce (pool w) = Once_done"
    using inv by (auto simp: stop_inv_def)
  have mem: "?pc \<in> set ?gs" using i by simp
  have a: "in_once ?pc = 1 \<longrightarrow> stopOnce (pool w) = Once_running"
    using in_once_le_callers [OF i] cnt by (auto split: if_splits)
  have b: "after_store ?pc \<longrightarrow> isStopped (pool w)"
    using after mem by blast
  note loc = thread_step_stop [OF st a b]
  have sub: "set (?gs[i := pc'] @ sp) \<subseteq> insert pc' (set ?gs) \<union> set sp"
    using set_update_subset_insert [of ?gs i pc'] by auto
  have 1: "sum_list (map in_once (?gs[i := pc'] @ sp))
             = (if stopOnce (pool w') = Once_running then 1 else 0)"
    using sum_list_map_update [OF i, of in_once pc'] loc(1) cnt
    by (simp add: callers_in_once_def)
  have 2: "stopOnce (pool w') = Once_done \<longrightarrow> isStopped (pool w')"
    using loc(2,4) dn by blast
  have 3: "\<forall>g \<in> set (?gs[i := pc'] @ sp). after_store g \<longrightarrow> isStopped (pool w')"
    using sub after loc(2,5,6) by blast
  have 4: "Stop_ret \<in> set (?gs[i := pc'] @ sp) \<longrightarrow> stopOnce (pool w') = Once_done"
    using sub ret loc(3,6,7) by blast
  show ?thesis using 1 2 3 4 by (simp add: stop_inv_def callers_in_once_def)
qed

lemma handoff_stop_inv:
  assumes inv: "stop_inv w" and h: "handoff w i j = Next w'"
  shows "stop_inv w'"
proof -
  from handoff_Next [OF h] obtain urgent item where
    i: "i < length (goroutines w)" and j: "j < length (goroutines w)"
    and gi: "goroutines w ! i = Schedule_select urgent item"
    and gj: "goroutines w ! j = Worker_select urgent"
    and w': "w' = w\<lparr>goroutines :=
                  (goroutines w)[i := Launch_check urgent, j := Worker_exec urgent item],
                accepted := accepted w @ [item]\<rparr>"
    by blast
  let ?gs = "goroutines w"
  let ?gs' = "?gs[i := Launch_check urgent, j := Worker_exec urgent item]"
  have ne: "i \<noteq> j" using gi gj by auto
  have j': "j < length (?gs[i := Launch_check urgent])" using j by simp
  have "sum_list (map in_once ?gs') = sum_list (map in_once (?gs[i := Launch_check urgent]))"
    using sum_list_map_update [OF j', of in_once "Worker_exec urgent item"] gj ne by simp
  also have "\<dots> = sum_list (map in_once ?gs)"
    using sum_list_map_update [OF i, of in_once "Launch_check urgent"] gi by simp
  finally have 1: "sum_list (map in_once ?gs') = sum_list (map in_once ?gs)" .
  have sub: "set ?gs' \<subseteq> {Launch_check urgent, Worker_exec urgent item} \<union> set ?gs"
    using set_update_subset_insert [of "?gs[i := Launch_check urgent]" j "Worker_exec urgent item"]
      set_update_subset_insert [of ?gs i "Launch_check urgent"] by auto
  have 3: "\<forall>g \<in> set ?gs'. after_store g \<longrightarrow> isStopped (pool w)"
    using sub inv by (auto simp: stop_inv_def)
  have 4: "Stop_ret \<in> set ?gs' \<longrightarrow> stopOnce (pool w) = Once_done"
    using sub inv by (auto simp: stop_inv_def)
  show ?thesis using inv 1 3 4 w' by (simp add: stop_inv_def callers_in_once_def)
qed

lemma step_stop_inv:
  assumes inv: "stop_inv w" and st: "step w a = Next w'"
  shows "stop_inv w'"
proof (cases a)
  case (Call_Schedule urgent item)
  then show ?thesis using inv st by (auto simp: step_def stop_inv_def callers_in_once_def)
next
  case Call_Stop
  then show ?thesis using inv st by (auto simp: step_def stop_inv_def callers_in_once_def)
next
  case (Step i c)
  then show ?thesis using st thread_step_stop_inv [OF inv, of i c]
    by (auto simp: step_def split: if_splits outcome.splits)
next
  case (Handoff i j)
  then show ?thesis using handoff_stop_inv [OF inv, of i j w'] st by (simp add: step_def)
qed

lemma run_stop_inv: "stop_inv w \<Longrightarrow> run w as = Next w' \<Longrightarrow> stop_inv w'"
proof (induction as arbitrary: w)
  case Nil
  then show ?case by simp
next
  case (Cons a as)
  then show ?case by (auto split: outcome.splits dest: step_stop_inv)
qed

lemma new_world_stop_inv:
  "NewDynamicThreadPool maxPriority maxNormal = Some p \<Longrightarrow> stop_inv (new_world p)"
  by (auto simp: NewDynamicThreadPool_def new_world_def stop_inv_def callers_in_once_def
      split: if_splits)

lemma reachable_stop_inv:
  assumes "NewDynamicThreadPool maxPriority maxNormal = Some p"
    and "run (new_world p) as = Next w"
  shows "stop_inv w"
  using run_stop_inv [OF new_world_stop_inv [OF assms(1)] assms(2)] .

lemma stopped_after_Stop:
  assumes "stop_inv w" and "isStopped (pool w) \<or> Stop_ret \<in> set (goroutines w)"
  shows "isStopped (pool w)"
  using assms by (auto simp: stop_inv_def)

lemma step_isStopped:
  assumes "isStopped (pool w)" and "stop_inv w" and "step w a = Next w'"
  shows "isStopped (pool w')"
proof (cases a)
  case (Step i c)
  show ?thesis
  proof (cases "i < length (goroutines w)")
    case True
    then obtain pc' sp w1 where st: "thread_step w (goroutines w ! i) c = Next (pc', sp, w1)"
      and w': "w' = w1\<lparr>goroutines := (goroutines w)[i := pc'] @ sp\<rparr>"
      using assms(3) Step by (auto simp: step_def split: outcome.splits)
    have a: "in_once (goroutines w ! i) = 1 \<longrightarrow> stopOnce (pool w) = Once_running"
      using in_once_le_callers [OF True] assms(2) by (auto simp: stop_inv_def split: if_splits)
    have b: "after_store (goroutines w ! i) \<longrightarrow> isStopped (pool w)"
      using assms(1) by simp
    from thread_step_stop(2) [OF st a b] assms(1) w' show ?thesis by simp
  next
    case False
    then show ?thesis using assms(3) Step by (simp add: step_def)
  qed
next
  case (Handoff i j)
  then show ?thesis using handoff_Next [of w i j w'] assms by (auto simp: step_def)
qed (use assms in \<open>auto simp: step_def\<close>)


lemma run_stopped:
  "isStopped (pool w) \<Longrightarrow> stop_inv w \<Longrightarrow> run w as = Next w'
   \<Longrightarrow> isStopped (pool w') \<and> stop_inv w'"
proof (induction as arbitrary: w)
  case Nil
  then show ?case by simp
next
  case (Cons a as)
  then obtain w1 where 1: "step w a = Next w1" and 2: "run w1 as = Next w'"
    by (auto split: outcome.splits)
  have "isStopped (pool w1)" using step_isStopped [OF Cons.prems(1,2) 1] .
  moreover have "stop_inv w1" using step_stop_inv [OF Cons.prems(2) 1] .
  ultimately show ?case using Cons.IH 2 by blast
qed

lemma step_rejected:
  assumes s: "isStopped (pool w)" and r: "rejected n urgent item w" and st: "step w a = Next w'"
  shows "rejected n urgent item w'"
proof (cases a)
  case (Call_Schedule u t)
  then show ?thesis using r st by (auto simp: step_def rejected_def nth_append)
next
  case Call_Stop
  then show ?thesis using r st by (auto simp: step_def rejected_def nth_append)
next
  case (Step i c)
  show ?thesis
  proof (cases "i = n")
    case True
    then show ?thesis using r st s Step
      by (auto simp: step_def rejected_def nth_append split: if_splits)
  next
    case False
    then show ?thesis using r st Step
      by (auto simp: step_def rejected_def nth_append split: if_splits outcome.splits)
  qed
next
  case (Handoff i j)
  with st have h: "handoff w i j = Next w'" by (simp add: step_def)
  from handoff_Next [OF h] obtain u t where
    gi: "goroutines w ! i = Schedule_select u t" and gj: "goroutines w ! j = Worker_select u"
    and w': "w' = w\<lparr>goroutines := (goroutines w)[i := Launch_check u, j := Worker_exec u t],
                accepted := accepted w @ [t]\<rparr>"
    by blast
  have "i \<noteq> n" "j \<noteq> n" using r gi gj by (auto simp: rejected_def)
  then show ?thesis using r w' by (simp add: rejected_def)
qed

lemma thread_step_pending:
  assumes st: "thread_step w pc c = Next (pc', sp, w')" and s: "isStopped (pool w)"
  shows "set (holds_task pc') \<union> set (concat (map holds_task sp)) \<union> queued w'
           \<union> set (executed w')
         \<subseteq> set (holds_task pc) \<union> queued w \<union> set (executed w)"
  using assms
  by (cases pc; cases c;
      auto simp: queued_def chan_send_Next chan_recv_Next chan_close_Next set_taskCh_def
        set_sem_def taskCh_def
        split: outcome.splits prod.splits option.splits if_splits once.splits list.splits)+

lemma set_concat_update:
  "set (concat (map f (gs[i := x]))) \<subseteq> set (f x) \<union> set (concat (map f gs))"
  using set_update_subset_insert [of gs i x] by auto

lemma nth_holds_task_pending:
  "i < length (goroutines w) \<Longrightarrow> set (holds_task (goroutines w ! i)) \<subseteq> pending w"
  by (auto simp: pending_def)

lemma pending_eq: "pending w = queued w \<union> set (concat (map holds_task (goroutines w)))"
  by (auto simp: pending_def queued_def)

lemma step_pending:
  assumes s: "isStopped (pool w)" and st: "step w a = Next w'"
  shows "pending w' \<union> set (executed w') \<subseteq> pending w \<union> set (executed w)"
proof (cases a)
  case (Call_Schedule u t)
  then show ?thesis using st by (auto simp: step_def pending_def)
next
  case Call_Stop
  then show ?thesis using st by (auto simp: step_def pending_def)
next
  case (Step i c)
  show ?thesis
  proof (cases "i < length (goroutines w)")
    case True
    then obtain pc' sp w1 where ts: "thread_step w (goroutines w ! i) c = Next (pc', sp, w1)"
      and w': "w' = w1\<lparr>goroutines := (goroutines w)[i := pc'] @ sp\<rparr>"
      using st Step by (auto simp: step_def split: outcome.splits)
    have A: "pending w' \<subseteq> queued w1 \<union> set (holds_task pc')
             \<union> set (concat (map holds_task (goroutines w))) \<union> set (concat (map holds_task sp))"
      using set_concat_update [of holds_task "goroutines w" i pc'] w'
      by (auto simp: pending_eq queued_def)
    have B: "set (executed w') = set (executed w1)" using w' by simp
    have E: "queued w \<subseteq> pending w" "set (concat (map holds_task (goroutines w))) \<subseteq> pending w"
      by (simp_all add: pending_eq)
    show ?thesis
      using A B E thread_step_pending [OF ts s] nth_holds_task_pending [OF True] by blast
  next
    case False
    then show ?thesis using st Step by (simp add: step_def)
  qed
next
  case (Handoff i j)
  with st have h: "handoff w i j = Next w'" by (simp add: step_def)
  from handoff_Next [OF h] obtain u t where
    i: "i < length (goroutines w)"
    and gi: "goroutines w ! i = Schedule_select u t"
    and w': "w' = w\<lparr>goroutines := (goroutines w)[i := Launch_check u, j := Worker_exec u t],
                accepted := accepted w @ [t]\<rparr>"
    by blast
  have "set (concat (map holds_task ((goroutines w)[i := Launch_check u, j := Worker_exec u t])))
          \<subseteq> {t} \<union> set (concat (map holds_task (goroutines w)))"
    using set_concat_update [of holds_task "(goroutines w)[i := Launch_check u]" j "Worker_exec u t"]
      set_concat_update [of holds_task "goroutines w" i "Launch_check u"] by auto
  moreover have "t \<in> pending w" using nth_holds_task_pending [OF i] gi by simp
  moreover have "queued w' = queued w" "set (executed w') = set (executed w)"
    using w' by (simp_all add: queued_def)
  moreover have "pending w' = queued w' \<union>
      set (concat (map holds_task ((goroutines w)[i := Launch_check u, j := Worker_exec u t])))"
    using w' by (simp add: pending_eq)
  moreover have "queued w \<subseteq> pending w"
    "set (concat (map holds_task (goroutines w))) \<subseteq> pending w"
    by (simp_all add: pending_eq)
  ultimately show ?thesis by blast
qed

lemma run_pending:
  "isStopped (pool w) \<Longrightarrow> stop_inv w \<Longrightarrow> run w as = Next w'
   \<Longrightarrow> pending w' \<union> set (executed w') \<subseteq> pending w \<union> set (executed w)"
proof (induction as arbitrary: w)
  case Nil
  then show ?case by simp
next
  case (Cons a as)
  then obtain w1 where 1: "step w a = Next w1" and 2: "run w1 as = Next w'"
    by (auto split: outcome.splits)
  have "isStopped (pool w1)" using step_isStopped [OF Cons.prems(1,2) 1] .
  moreover have "stop_inv w1" using step_stop_inv [OF Cons.prems(2) 1] .
  ultimately have "pending w' \<union> set (executed w') \<subseteq> pending w1 \<union> set (executed w1)"
    using Cons.IH 2 by blast
  then show ?case using step_pending [OF Cons.prems(1) 1] by blast
qed

lemma run_rejected:
  "isStopped (pool w) \<Longrightarrow> stop_inv w \<Longrightarrow> rejected n urgent item w \<Longrightarrow> run w as = Next w'
   \<Longrightarrow> rejected n urgent item w'"
proof (induction as arbitrary: w)
  case Nil
  then show ?case by simp
next
  case (Cons a as)
  then obtain w1 where 1: "step w a = Next w1" and 2: "run w1 as = Next w'"
    by (auto split: outcome.splits)
  have "isStopped (pool w1)" using step_isStopped [OF Cons.prems(1,2) 1] .
  moreover have "stop_inv w1" using step_stop_inv [OF Cons.prems(2) 1] .
  moreover have "rejected n urgent item w1" using step_rejected [OF Cons.prems(1,3) 1] .
  ultimately show ?case using Cons.IH 2 by blast
qed

text \<open>C3: let the pool be stopped: \<^verbatim>\<open>isStopped\<close> is set, as it is in particular
  once a call of \<^verbatim>\<open>Stop\<close> has returned. A call \<^verbatim>\<open>Schedule(urgent, item)\<close> made
  then returns \<^verbatim>\<open>false\<close> in its first step and changes nothing: neither queue, no
  semaphore, no other goroutine. And however the run continues after the call is made, the
  pool stays stopped, the caller never gets past its check, and \<open>item\<close> is neither queued
  nor executed (unless an equal task was accepted before the pool was stopped and is still
  pending).\<close>

theorem post_stop_rejection:
  assumes new: "NewDynamicThreadPool maxPriority maxNormal = Some p"
    and run: "run (new_world p) as = Next w"
    and stopped: "isStopped (pool w) \<or> Stop_ret \<in> set (goroutines w)"
  shows "run w [Call_Schedule urgent item, Step (length (goroutines w)) c]
           = Next (w\<lparr>goroutines := goroutines w @ [Schedule_ret False]\<rparr>)
       \<and> (run w (Call_Schedule urgent item # as') = Next w' \<longrightarrow>
            isStopped (pool w')
            \<and> (goroutines w' ! length (goroutines w) = Schedule_check urgent item
                 \<or> goroutines w' ! length (goroutines w) = Schedule_ret False)
            \<and> (item \<notin> pending w \<union> set (executed w) \<longrightarrow>
                 item \<notin> pending w' \<union> set (executed w')))"
proof -
  have inv: "stop_inv w" using reachable_stop_inv [OF new run] .
  have s: "isStopped (pool w)" using stopped_after_Stop [OF inv stopped] .
  let ?w1 = "w\<lparr>goroutines := goroutines w @ [Schedule_check urgent item]\<rparr>"
  have c: "step w (Call_Schedule urgent item) = Next ?w1" by (simp add: step_def)
  have 1: "run w [Call_Schedule urgent item, Step (length (goroutines w)) c]
           = Next (w\<lparr>goroutines := goroutines w @ [Schedule_ret False]\<rparr>)"
    using s by (simp add: step_def)
  have s1: "isStopped (pool ?w1)" using s by simp
  have inv1: "stop_inv ?w1" using step_stop_inv [OF inv c] .
  have r1: "rejected (length (goroutines w)) urgent item ?w1" by (simp add: rejected_def)
  have p1: "pending ?w1 = pending w" by (simp add: pending_def)
  have 2: "isStopped (pool w')
            \<and> (goroutines w' ! length (goroutines w) = Schedule_check urgent item
                 \<or> goroutines w' ! length (goroutines w) = Schedule_ret False)
            \<and> (item \<notin> pending w \<union> set (executed w) \<longrightarrow>
                 item \<notin> pending w' \<union> set (executed w'))"
    if r: "run w (Call_Schedule urgent item # as') = Next w'"
  proof -
    from r c have r': "run ?w1 as' = Next w'" by simp
    show ?thesis
      using run_stopped [OF s1 inv1 r'] run_rejected [OF s1 inv1 r1 r']
        run_pending [OF s1 inv1 r'] p1
      by (auto simp: rejected_def)
  qed
  from 1 2 show ?thesis by blast
qed


theorem post_stop_rejection_witness:
  "\<exists>p w. NewDynamicThreadPool 1 1 = Some p
     \<and> run (new_world p)
          [Call_Stop, Step 0 Case_close, Step 0 Case_close, Step 0 Case_close, Step 0 Case_close,
           Step 0 Case_close, Step 0 Case_close, Step 0 Case_close, Step 0 Case_close,
           Step 0 Case_close] = Next w
     \<and> Stop_ret \<in> set (goroutines w)
     \<and> run w [Call_Schedule True (7::nat), Step (length (goroutines w)) Case_task]
           = Next (w\<lparr>goroutines := goroutines w @ [Schedule_ret False]\<rparr>)
     \<and> 7 \<notin> pending (w\<lparr>goroutines := goroutines w @ [Schedule_ret False]\<rparr>)
     \<and> executed w = []"
proof -
  obtain p :: "nat DynamicThreadPool" where p: "NewDynamicThreadPool 1 1 = Some p"
    by (simp add: NewDynamicThreadPool_def)
  obtain w where w: "run (new_world p)
          [Call_Stop, Step 0 Case_close, Step 0 Case_close, Step 0 Case_close, Step 0 Case_close,
           Step 0 Case_close, Step 0 Case_close, Step 0 Case_close, Step 0 Case_close,
           Step 0 Case_close] = Next w"
    and g: "Stop_ret \<in> set (goroutines w)" and e: "executed w = []" and q: "pending w = {}"
    using p by (auto simp: eval_simps pending_def)
  have s: "isStopped (pool w) \<or> Stop_ret \<in> set (goroutines w)" using g by simp
  let ?w' = "w\<lparr>goroutines := goroutines w @ [Schedule_ret False]\<rparr>"
  note t = post_stop_rejection [OF p w s, of True 7 Case_task "[Step (length (goroutines w)) Case_task]" ?w']
  have 1: "run w [Call_Schedule True (7::nat), Step (length (goroutines w)) Case_task] = Next ?w'"
    using t by blast
  then have "7 \<notin> pending ?w'" using t q e by simp
  with p w g 1 e show ?thesis by blast
qed

section \<open>\<^verbatim>\<open>Stop\<close> called again\<close>

lemma stop_calls_done:
  "stopOnce (pool w) = Once_done \<Longrightarrow>
   run w (stop_calls (length (goroutines w)) k)
     = Next (w\<lparr>goroutines := goroutines w @ replicate k Stop_ret\<rparr>)"
proof (induction k arbitrary: w)
  case 0
  then show ?case by simp
next
  case (Suc k)
  let ?w1 = "w\<lparr>goroutines := goroutines w @ [Stop_ret]\<rparr>"
  have 1: "run w (Call_Stop # Step (length (goroutines w)) Case_close # as)
             = run ?w1 as" for as
    using Suc.prems by (simp add: step_def)
  have 2: "stopOnce (pool ?w1) = Once_done" using Suc.prems by simp
  have 3: "length (goroutines ?w1) = Suc (length (goroutines w))" by simp
  show ?case
    using Suc.IH [OF 2] 1 [of "stop_calls (Suc (length (goroutines w))) k"]
    by (simp add: replicate_app_Cons_same)
qed

lemmas s_eval_simps =
  s_step_def s_handoff_def new_sworld_def NewStaticThreadPool_def make_chan_def
  chan_send_def chan_recv_def chan_close_def s_taskCh_def s_set_taskCh_def highPriority_def

text \<open>The static pool has no such guard. A pool of one worker: the first \<^verbatim>\<open>Stop\<close> sends
  its signal, waits, closes the three channels and returns; the second \<^verbatim>\<open>Stop\<close> sends on
  the closed channel \<^verbatim>\<open>t.close\<close> and panics. This refutes C4 for the static pool.\<close>

theorem static_stop_twice_faults:
  "\<exists>p. NewStaticThreadPool 1 = Some p
     \<and> (\<exists>w. s_run (new_sworld p)
            [SCall_Stop, SStep 0 Case_close, SStep 0 Case_close, SStep 0 Case_close,
             SStep 0 Case_close, SStep 0 Case_close, SStep 0 Case_close] = Next w
          \<and> s_goroutines w = [SStop_ret :: nat spc]
          \<and> s_run w [SCall_Stop, SStep 1 Case_close] = Fault SendOnClosedChannel)"
  by (simp add: s_eval_simps)

text \<open>C4, for the dynamic pool: in every reachable state at most one caller is inside the
  function guarded by \<^verbatim>\<open>stopOnce\<close>, exactly while the \<^verbatim>\<open>Once\<close> is running. Once a call
  of \<^verbatim>\<open>Stop\<close> has returned, any number \<open>k\<close> of further calls return in one step each and
  leave the pool, the logs and all other goroutines as they are. A caller arriving at the
  \<^verbatim>\<open>Once\<close> runs the function when it is the first, waits (without fault) while another
  caller is running it, and returns at once when it is done.\<close>

theorem stop_idempotent:
  assumes new: "NewDynamicThreadPool maxPriority maxNormal = Some p"
    and run: "run (new_world p) as = Next w"
  shows "callers_in_once w = (if stopOnce (pool w) = Once_running then 1 else 0)
       \<and> (Stop_ret \<in> set (goroutines w) \<longrightarrow>
            run w (stop_calls (length (goroutines w)) k)
              = Next (w\<lparr>goroutines := goroutines w @ replicate k Stop_ret\<rparr>))
       \<and> (i < length (goroutines w) \<and> goroutines w ! i = Stop_once \<longrightarrow>
            step w (Step i c) =
              (case stopOnce (pool w) of
                 Once_fresh \<Rightarrow> Next (w\<lparr>pool := (pool w)\<lparr>stopOnce := Once_running\<rparr>,
                                       goroutines := (goroutines w)[i := Stop_store]\<rparr>)
               | Once_running \<Rightarrow> Disabled
               | Once_done \<Rightarrow> Next (w\<lparr>goroutines := (goroutines w)[i := Stop_ret]\<rparr>)))"
proof -
  have inv: "stop_inv w" using reachable_stop_inv [OF new run] .
  have 1: "callers_in_once w = (if stopOnce (pool w) = Once_running then 1 else 0)"
    using inv by (simp add: stop_inv_def)
  have 2: "Stop_ret \<in> set (goroutines w) \<longrightarrow>
            run w (stop_calls (length (goroutines w)) k)
              = Next (w\<lparr>goroutines := goroutines w @ replicate k Stop_ret\<rparr>)"
    using inv stop_calls_done [of w k] by (simp add: stop_inv_def)
  have 3: "i < length (goroutines w) \<and> goroutines w ! i = Stop_once \<longrightarrow>
            step w (Step i c) =
              (case stopOnce (pool w) of
                 Once_fresh \<Rightarrow> Next (w\<lparr>pool := (pool w)\<lparr>stopOnce := Once_running\<rparr>,
                                       goroutines := (goroutines w)[i := Stop_store]\<rparr>)
               | Once_running \<Rightarrow> Disabled
               | Once_done \<Rightarrow> Next (w\<lparr>goroutines := (goroutines w)[i := Stop_ret]\<rparr>))"
    by (auto simp: step_def split: once.splits)
  from 1 2 3 show ?thesis by blast
qed

theorem stop_idempotent_witness:
  "\<exists>p w. NewDynamicThreadPool 1 1 = Some p
     \<and> run (new_world p)
          [Call_Stop, Step 0 Case_close, Step 0 Case_close, Step 0 Case_close, Step 0 Case_close,
           Step 0 Case_close, Step 0 Case_close, Step 0 Case_close, Step 0 Case_close,
           Step 0 Case_close] = Next w
     \<and> goroutines w = [Stop_ret :: nat pc]
     \<and> callers_in_once w = 0
     \<and> run w [Call_Stop, Step 1 Case_close, Call_Stop, Step 2 Case_close,
               Call_Stop, Step 3 Case_close]
          = Next (w\<lparr>goroutines := [Stop_ret, Stop_ret, Stop_ret, Stop_ret]\<rparr>)"
proof -
  obtain p :: "nat DynamicThreadPool" where p: "NewDynamicThreadPool 1 1 = Some p"
    by (simp add: NewDynamicThreadPool_def)
  obtain w where w: "run (new_world p)
          [Call_Stop, Step 0 Case_close, Step 0 Case_close, Step 0 Case_close, Step 0 Case_close,
           Step 0 Case_close, Step 0 Case_close, Step 0 Case_close, Step 0 Case_close,
           Step 0 Case_close] = Next w"
    and g: "goroutines w = [Stop_ret]" and o: "stopOnce (pool w) = Once_done"
    using p by (auto simp: eval_simps)
  note t = stop_idempotent [OF p w, of 3 0 Case_close]
  have 1: "callers_in_once w = 0" using t o by simp
  have m: "Stop_ret \<in> set (goroutines w)" using g by simp
  have t2: "run w (stop_calls (length (goroutines w)) 3)
              = Next (w\<lparr>goroutines := goroutines w @ replicate 3 Stop_ret\<rparr>)"
    using t m by blast
  have sc: "stop_calls (length (goroutines w)) 3
          = [Call_Stop, Step 1 Case_close, Call_Stop, Step 2 Case_close,
             Call_Stop, Step 3 Case_close]"
    using g by (simp add: numeral_3_eq_3 numeral_2_eq_2)
  have rp: "goroutines w @ replicate 3 Stop_ret = [Stop_ret, Stop_ret, Stop_ret, Stop_ret]"
    using g by (simp add: numeral_3_eq_3)
  have 2: "run w [Call_Stop, Step 1 Case_close, Call_Stop, Step 2 Case_close,
               Call_Stop, Step 3 Case_close]
          = Next (w\<lparr>goroutines := [Stop_ret, Stop_ret, Stop_ret, Stop_ret]\<rparr>)"
    using t2 unfolding sc rp .
  from p w g 1 2 show ?thesis by blast
qed

section \<open>The dynamic pool: the \<^verbatim>\<open>select\<close> of a worker\<close>

text \<open>C9: the \<^verbatim>\<open>select\<close> of a worker gives the shutdown channel no priority, whatever
  the comment on its first case says: with several cases ready Go takes any of them. A
  pool with ceilings 1 and 1: one urgent task is scheduled and its worker is started; then
  \<^verbatim>\<open>Stop\<close> sets \<^verbatim>\<open>isStopped\<close> and closes \<^verbatim>\<open>closeCh\<close>. Now the worker's
  \<^verbatim>\<open>select\<close> has both cases ready. It may take the shutdown case (and execute nothing),
  and it may as well take the task and execute it.\<close>

theorem worker_select_takes_task_after_shutdown:
  "\<exists>p w w'. NewDynamicThreadPool 1 1 = Some p
     \<and> run (new_world p)
          [Call_Schedule True (7::nat), Step 0 Case_task, Step 0 Case_task, Step 0 Case_task,
           Step 0 Case_task, Step 0 Case_task, Step 0 Case_task, Step 0 Case_task,
           Call_Stop, Step 2 Case_close, Step 2 Case_close, Step 2 Case_close] = Next w
     \<and> goroutines w = [Schedule_ret True, Worker_select True, Stop_wait]
     \<and> isStopped (pool w)
     \<and> ch_closed (closeCh (pool w))
     \<and> ch_buf (priorityCh (pool w)) = [7]
     \<and> step w (Step 1 Case_close)
           = Next (w\<lparr>goroutines := [Schedule_ret True, Worker_release True, Stop_wait]\<rparr>)
     \<and> run w [Step 1 Case_task, Step 1 Case_task] = Next w'
     \<and> goroutines w' = [Schedule_ret True, Worker_release True, Stop_wait]
     \<and> executed w' = [7]"
  by (simp add: eval_simps)

section \<open>The static pool: the share of urgent-only workers\<close>

lemma highPriority_exact:
  assumes "unat worker * 10 < 2 ^ 32"
  shows "unat (highPriority worker) = unat worker div 10"
proof -
  have "unat (worker * 10) = unat worker * 10"
    using assms by (simp add: unat_word_ariths)
  then have "unat (highPriority worker) = (unat worker * 10) div 100"
    by (simp add: highPriority_def unat_div)
  then show ?thesis by simp
qed

text \<open>\<^verbatim>\<open>Start\<close>, run by a caller alone from any state, launches one worker per iteration
  of its loop, \<^verbatim>\<open>t.worker\<close> of them, worker \<open>j\<close> with the flag \<open>j < highPriority\<close>; and
  while \<^verbatim>\<open>t.worker * 10\<close> does not overflow these are the first tenth of the workers,
  rounded down.\<close>

lemma s_run_append:
  "s_run w (as @ bs) = (case s_run w as of Next w' \<Rightarrow> s_run w' bs
                        | Fault f \<Rightarrow> Fault f | Disabled \<Rightarrow> Disabled)"
  by (induction as arbitrary: w) (auto split: outcome.splits)

lemma start_loop_iterations:
  assumes "k < length (s_goroutines w)"
    and "s_goroutines w ! k = SStart_loop hp i"
    and "unat i + n \<le> unat (s_worker (s_pool w))"
  shows "s_run w (alone k (2 * n))
         = Next (w\<lparr>s_pool := (s_pool w)\<lparr>s_wg := s_wg (s_pool w) + int n\<rparr>,
                   s_goroutines := (s_goroutines w)[k := SStart_loop hp (i + of_nat n)]
                      @ map (\<lambda>j. Do_select (i + of_nat j < hp)) [0..<n]\<rparr>)"
  using assms
proof (induction n arbitrary: w i)
  case 0
  have "(s_goroutines w)[k := SStart_loop hp i] = s_goroutines w"
    using "0.prems"(2) by (metis list_update_id)
  then show ?case by (simp add: alone_def)
next
  case (Suc n)
  let ?gs = "s_goroutines w"
  let ?w2 = "w\<lparr>s_pool := (s_pool w)\<lparr>s_wg := s_wg (s_pool w) + 1\<rparr>,
               s_goroutines := ?gs[k := SStart_loop hp (i + 1)] @ [Do_select (i < hp)]\<rparr>"
  have lt: "i < s_worker (s_pool w)"
    using Suc.prems(3) by (simp add: word_less_nat_alt)
  have "unat i < unat (s_worker (s_pool w))" using Suc.prems(3) by simp
  moreover have "unat (s_worker (s_pool w)) < 2 ^ LENGTH(32)" by (rule unsigned_less)
  ultimately have "unat i + unat (1 :: 32 word) < 2 ^ LENGTH(32)" by simp
  then have suc: "unat (i + 1) = unat i + 1"
    using unat_add_lem [of i 1] by simp
  have two: "s_run w (alone k (2 * Suc n)) = s_run ?w2 (alone k (2 * n))"
    using Suc.prems(1,2) lt by (simp add: alone_def s_step_def nth_append)
  have k2: "k < length (s_goroutines ?w2)" using Suc.prems(1) by simp
  have g2: "s_goroutines ?w2 ! k = SStart_loop hp (i + 1)"
    using Suc.prems(1) by (simp add: nth_append)
  have b2: "unat (i + 1) + n \<le> unat (s_worker (s_pool ?w2))"
    using Suc.prems(3) suc by simp
  have m: "map (\<lambda>j. Do_select (i + of_nat j < hp)) [0..<Suc n]
             = Do_select (i < hp) # map (\<lambda>j. Do_select (i + 1 + of_nat j < hp)) [0..<n]"
    by (simp add: map_upt_Suc ac_simps del: upt_Suc)
  show ?case
    unfolding two Suc.IH [OF k2 g2 b2] m
    using Suc.prems(1) by (simp add: list_update_append ac_simps)
qed


lemma start_spawns:
  fixes w :: "'a sworld"
  defines "k \<equiv> length (s_goroutines w)"
    and "n \<equiv> unat (s_worker (s_pool w))"
  shows "s_run w (SCall_Start # alone k (2 * n + 2))
         = Next (w\<lparr>s_pool := (s_pool w)\<lparr>s_wg := s_wg (s_pool w) + int n\<rparr>,
                   s_goroutines := s_goroutines w @ [SStart_ret]
                      @ map (\<lambda>j. Do_select (of_nat j < highPriority (s_worker (s_pool w))))
                          [0..<n]\<rparr>)"
proof -
  let ?hp = "highPriority (s_worker (s_pool w))"
  let ?w1 = "w\<lparr>s_goroutines := s_goroutines w @ [SStart_loop ?hp 0]\<rparr>"
  let ?w2 = "?w1\<lparr>s_pool := (s_pool ?w1)\<lparr>s_wg := s_wg (s_pool ?w1) + int n\<rparr>,
                   s_goroutines := (s_goroutines ?w1)[k := SStart_loop ?hp (0 + of_nat n)]
                      @ map (\<lambda>j. Do_select (0 + of_nat j < ?hp)) [0..<n]\<rparr>"
  have split: "alone k (2 * n + 2) = SStep k Case_task # (alone k (2 * n) @ [SStep k Case_task])"
    by (simp add: alone_def replicate_append_same)
  have first: "s_run w (SCall_Start # SStep k Case_task # as) = s_run ?w1 as" for as
    by (simp add: s_step_def k_def)
  have k1: "k < length (s_goroutines ?w1)" by (simp add: k_def)
  have g1: "s_goroutines ?w1 ! k = SStart_loop ?hp 0" by (simp add: k_def)
  have b1: "unat (0 :: 32 word) + n \<le> unat (s_worker (s_pool ?w1))" by (simp add: n_def)
  have loop: "s_run ?w1 (alone k (2 * n)) = Next ?w2"
    using start_loop_iterations [OF k1 g1 b1] .
  have n: "(of_nat n :: 32 word) = s_worker (s_pool w)" by (simp add: n_def)
  have last: "s_run ?w2 [SStep k Case_task]
         = Next (w\<lparr>s_pool := (s_pool w)\<lparr>s_wg := s_wg (s_pool w) + int n\<rparr>,
                   s_goroutines := s_goroutines w @ [SStart_ret]
                      @ map (\<lambda>j. Do_select (of_nat j < ?hp)) [0..<n]\<rparr>)"
    using n by (simp add: s_step_def k_def nth_append)
  show ?thesis
    unfolding split first s_run_append loop using last by simp
qed

lemma urgent_only_share:
  assumes "unat worker * 10 < 2 ^ 32" and "j < unat worker"
  shows "(of_nat j :: 32 word) < highPriority worker \<longleftrightarrow> j < unat worker div 10"
proof -
  have "j < 2 ^ 32" using assms by simp
  then have "unat (of_nat j :: 32 word) = j" by (simp add: unat_of_nat)
  then show ?thesis
    using highPriority_exact [OF assms(1)] by (simp add: word_less_nat_alt)
qed

text \<open>C7: \<^verbatim>\<open>(t.worker * 10) / 100\<close> is computed in \<^verbatim>\<open>uint32\<close>. For 429496730
  workers the product wraps to 4 and the quotient is 0, where a tenth of the workers is
  42949673: no worker is urgent-only, and the first worker that \<^verbatim>\<open>Start\<close> launches runs
  in mixed mode.\<close>

theorem highPriority_overflow:
  "highPriority 429496730 = 0
   \<and> (429496730 * 10) div 100 = (42949673 :: nat)
   \<and> (\<exists>p w. NewStaticThreadPool 429496730 = Some p
        \<and> s_run (new_sworld p)
             [SCall_Start, SStep 0 Case_task, SStep 0 Case_task, SStep 0 Case_task] = Next w
        \<and> s_goroutines w = [SStart_loop 0 1, Do_select False :: nat spc])"
  by (simp add: s_eval_simps)

section \<open>The static pool: \<^verbatim>\<open>Schedule\<close> after \<^verbatim>\<open>Stop\<close>\<close>

lemma s_thread_step_closed:
  assumes st: "s_thread_step w pc c = Next (pc', sp, w')" and ok: "s_closed_ok (s_pool w) pc"
  shows "s_closed_ok (s_pool w') pc'
    \<and> (\<forall>g \<in> set sp. s_closed_ok (s_pool w') g)
    \<and> (ch_closed (s_priorityCh (s_pool w)) \<longrightarrow> ch_closed (s_priorityCh (s_pool w')))
    \<and> (ch_closed (s_normalCh (s_pool w)) \<longrightarrow> ch_closed (s_normalCh (s_pool w')))"
proof (cases pc)
  case (SStart_loop hp i)
  then show ?thesis using st ok by (auto split: if_splits)
next
  case (SStop_loop i)
  then show ?thesis using st ok
    by (auto simp: chan_send_Next split: if_splits outcome.splits)
next
  case SStop_wait
  then show ?thesis using st ok by (auto split: if_splits)
next
  case (SSchedule_send u t)
  then show ?thesis using st ok
    by (cases u) (auto simp: chan_send_Next s_set_taskCh_def s_taskCh_def split: outcome.splits)
next
  case (Do_select pr)
  then show ?thesis using st ok
    by (cases c) (auto simp: chan_recv_Next split: outcome.splits prod.splits if_splits list.splits)
next
  case (Do_exec pr t)
  then show ?thesis using st ok by (cases t) auto
next
  case Do_done
  then show ?thesis using st ok by (auto split: if_splits)
qed (use st ok in \<open>auto simp: chan_close_Next split: outcome.splits\<close>)

lemma s_closed_ok_mono:
  assumes "s_closed_ok p g"
    and "ch_closed (s_priorityCh p) \<longrightarrow> ch_closed (s_priorityCh p')"
    and "ch_closed (s_normalCh p) \<longrightarrow> ch_closed (s_normalCh p')"
  shows "s_closed_ok p' g"
  using assms by (cases g) auto

lemma s_sending_Some:
  "s_sending pc = Some (urgent, item) \<longleftrightarrow> pc = SSchedule_send urgent item"
  by (cases pc) auto

lemma s_receiving_Some: "s_receiving pc = Some priority \<longleftrightarrow> pc = Do_select priority"
  by (cases pc) auto

lemma s_handoff_Next:
  "s_handoff w i j = Next w' \<Longrightarrow>
   \<exists>urgent item priority. i < length (s_goroutines w) \<and> j < length (s_goroutines w)
     \<and> s_goroutines w ! i = SSchedule_send urgent item
     \<and> s_goroutines w ! j = Do_select priority
     \<and> (urgent \<or> \<not> priority)
     \<and> \<not> ch_closed (s_taskCh urgent (s_pool w))
     \<and> ch_buf (s_taskCh urgent (s_pool w)) = []
     \<and> w' = w\<lparr>s_goroutines :=
                  (s_goroutines w)[i := SSchedule_ret, j := Do_exec priority (Some item)],
                s_accepted := s_accepted w @ [item]\<rparr>"
  by (auto simp: s_handoff_def s_sending_Some s_receiving_Some
      split: if_splits option.splits prod.splits)

lemma s_step_closed_inv:
  assumes inv: "s_closed_inv w" and st: "s_step w a = Next w'"
  shows "s_closed_inv w'"
proof (cases a)
  case SCall_Start
  then show ?thesis using inv st by (auto simp: s_step_def s_closed_inv_def)
next
  case SCall_Stop
  then show ?thesis using inv st by (auto simp: s_step_def s_closed_inv_def)
next
  case (SCall_Schedule u t)
  then show ?thesis using inv st by (auto simp: s_step_def s_closed_inv_def)
next
  case (SStep i c)
  show ?thesis
  proof (cases "i < length (s_goroutines w)")
    case True
    then obtain pc' sp w1 where ts: "s_thread_step w (s_goroutines w ! i) c = Next (pc', sp, w1)"
      and w': "w' = w1\<lparr>s_goroutines := (s_goroutines w)[i := pc'] @ sp\<rparr>"
      using st SStep by (auto simp: s_step_def split: outcome.splits)
    have ok: "s_closed_ok (s_pool w) (s_goroutines w ! i)"
      using inv True by (simp add: s_closed_inv_def)
    from s_thread_step_closed [OF ts ok]
    have loc: "s_closed_ok (s_pool w1) pc'" "\<forall>g \<in> set sp. s_closed_ok (s_pool w1) g"
      and mono: "ch_closed (s_priorityCh (s_pool w)) \<longrightarrow> ch_closed (s_priorityCh (s_pool w1))"
        "ch_closed (s_normalCh (s_pool w)) \<longrightarrow> ch_closed (s_normalCh (s_pool w1))"
      by simp_all
    have old: "\<forall>g \<in> set (s_goroutines w). s_closed_ok (s_pool w1) g"
      using inv s_closed_ok_mono [OF _ mono] by (auto simp: s_closed_inv_def)
    have "set ((s_goroutines w)[i := pc'] @ sp) \<subseteq> insert pc' (set (s_goroutines w)) \<union> set sp"
      using set_update_subset_insert [of "s_goroutines w" i pc'] by auto
    then show ?thesis using old loc(1,2) w' by (auto simp: s_closed_inv_def)
  next
    case False
    then show ?thesis using st SStep by (simp add: s_step_def)
  qed
next
  case (SHandoff i j)
  with st have h: "s_handoff w i j = Next w'" by (simp add: s_step_def)
  from s_handoff_Next [OF h] obtain t pr where
    w': "w' = w\<lparr>s_goroutines := (s_goroutines w)[i := SSchedule_ret, j := Do_exec pr (Some t)],
                s_accepted := s_accepted w @ [t]\<rparr>"
    by blast
  have "set ((s_goroutines w)[i := SSchedule_ret, j := Do_exec pr (Some t)])
          \<subseteq> {SSchedule_ret, Do_exec pr (Some t)} \<union> set (s_goroutines w)"
    using set_update_subset_insert [of "(s_goroutines w)[i := SSchedule_ret]" j "Do_exec pr (Some t)"]
      set_update_subset_insert [of "s_goroutines w" i SSchedule_ret] by auto
  then show ?thesis using inv w' by (auto simp: s_closed_inv_def)
qed

lemma s_run_closed_inv: "s_closed_inv w \<Longrightarrow> s_run w as = Next w' \<Longrightarrow> s_closed_inv w'"
proof (induction as arbitrary: w)
  case Nil
  then show ?case by simp
next
  case (Cons a as)
  then show ?case by (auto split: outcome.splits dest: s_step_closed_inv)
qed

text \<open>C10: in every run of the static pool, once a call of \<^verbatim>\<open>Stop\<close> has returned both
  task channels are closed for good, so a later \<^verbatim>\<open>Schedule\<close> of either class panics in
  its send: it neither waits nor drops the task silently.\<close>

theorem static_schedule_after_stop:
  assumes new: "NewStaticThreadPool cnt = Some p"
    and run: "s_run (new_sworld p) as = Next w"
    and ret: "SStop_ret \<in> set (s_goroutines w)"
  shows "s_run w [SCall_Schedule urgent item, SStep (length (s_goroutines w)) c]
           = Fault SendOnClosedChannel"
proof -
  have "s_closed_inv (new_sworld p)" by (simp add: s_closed_inv_def new_sworld_def)
  then have "s_closed_inv w" using s_run_closed_inv run by blast
  then have "ch_closed (s_priorityCh (s_pool w)) \<and> ch_closed (s_normalCh (s_pool w))"
    using ret by (auto simp: s_closed_inv_def)
  then show ?thesis by (simp add: s_step_def s_taskCh_def chan_send_def)
qed

theorem static_schedule_after_stop_witness:
  "\<exists>p w. NewStaticThreadPool 1 = Some p
     \<and> s_run (new_sworld p)
          [SCall_Stop, SStep 0 Case_close, SStep 0 Case_close, SStep 0 Case_close,
           SStep 0 Case_close, SStep 0 Case_close, SStep 0 Case_close] = Next w
     \<and> SStop_ret \<in> set (s_goroutines w)
     \<and> s_run w [SCall_Schedule True (7::nat), SStep (length (s_goroutines w)) Case_task]
           = Fault SendOnClosedChannel
     \<and> s_run w [SCall_Schedule False (7::nat), SStep (length (s_goroutines w)) Case_task]
           = Fault SendOnClosedChannel"
proof -
  obtain p :: "nat StaticThreadPool" where p: "NewStaticThreadPool 1 = Some p"
    by (simp add: NewStaticThreadPool_def)
  obtain w where w: "s_run (new_sworld p)
          [SCall_Stop, SStep 0 Case_close, SStep 0 Case_close, SStep 0 Case_close,
           SStep 0 Case_close, SStep 0 Case_close, SStep 0 Case_close] = Next w"
    and g: "SStop_ret \<in> set (s_goroutines w)"
    using p by (auto simp: s_eval_simps)
  from static_schedule_after_stop [OF p w g, of True 7 Case_task]
    static_schedule_after_stop [OF p w g, of False 7 Case_task] p w g
  show ?thesis by blast
qed

section \<open>Both pools: what becomes of an accepted task\<close>

lemma thread_step_accounted:
  assumes st: "thread_step w pc c = Next (pc', sp, w')"
  shows "mset (accepted w') + (mset (executes pc) + stored w)
           = mset (accepted w)
             + (mset (executes pc') + sum_list (map (\<lambda>g. mset (executes g)) sp) + stored w')"
proof (cases pc)
  case (Schedule_check u t)
  then show ?thesis using st by (auto split: if_splits)
next
  case (Schedule_select u t)
  then show ?thesis using st
    by (cases c; cases u)
       (auto simp: stored_def chan_send_Next chan_recv_Next set_taskCh_def
          split: outcome.splits prod.splits)
next
  case (Launch_check u)
  then show ?thesis using st by (auto split: if_splits)
next
  case (Launch_acquire u)
  then show ?thesis using st
    by (cases u) (auto simp: stored_def chan_send_Next set_sem_def split: outcome.splits)
next
  case (Worker_select u)
  then show ?thesis using st
    by (cases c; cases u)
       (auto simp: stored_def chan_recv_Next set_taskCh_def
          split: outcome.splits prod.splits option.splits list.splits)
next
  case (Worker_exec u t)
  then show ?thesis using st by (auto simp: stored_def)
next
  case (Worker_release u)
  then show ?thesis using st
    by (cases u) (auto simp: stored_def chan_recv_Next set_sem_def split: outcome.splits prod.splits)
next
  case (Worker_wg u)
  then show ?thesis using st by (auto simp: stored_def split: if_splits)
next
  case Stop_once
  then show ?thesis using st by (auto simp: stored_def split: once.splits)
next
  case Stop_wait
  then show ?thesis using st by (auto split: if_splits)
qed (use st in \<open>auto simp: stored_def chan_close_Next split: outcome.splits\<close>)

lemma step_accounted:
  assumes inv: "accounted w" and st: "step w a = Next w'"
  shows "accounted w'"
proof (cases a)
  case (Call_Schedule u t)
  then show ?thesis using inv st by (auto simp: step_def accounted_def stored_def in_flight_def)
next
  case Call_Stop
  then show ?thesis using inv st by (auto simp: step_def accounted_def stored_def in_flight_def)
next
  case (Step i c)
  show ?thesis
  proof (cases "i < length (goroutines w)")
    case True
    then obtain pc' sp w1 where ts: "thread_step w (goroutines w ! i) c = Next (pc', sp, w1)"
      and w': "w' = w1\<lparr>goroutines := (goroutines w)[i := pc'] @ sp\<rparr>"
      using st Step by (auto simp: step_def split: outcome.splits)
    let ?f = "\<lambda>g. mset (executes g)"
    have 1: "in_flight w' + ?f (goroutines w ! i)
               = in_flight w + ?f pc' + sum_list (map ?f sp)"
      using sum_list_map_update [OF True, of ?f pc'] w'
      by (simp add: in_flight_def ac_simps)
    have 2: "stored w' = stored w1" "accepted w' = accepted w1"
      using w' by (simp_all add: stored_def)
    have "mset (accepted w') + (?f (goroutines w ! i) + stored w)
            = (stored w' + in_flight w') + (?f (goroutines w ! i) + stored w)"
      using thread_step_accounted [OF ts] inv 1 2
      by (simp add: accounted_def ac_simps)
    then show ?thesis by (simp add: accounted_def)
  next
    case False
    then show ?thesis using st Step by (simp add: step_def)
  qed
next
  case (Handoff i j)
  with st have h: "handoff w i j = Next w'" by (simp add: step_def)
  from handoff_Next [OF h] obtain u t where
    i: "i < length (goroutines w)" and j: "j < length (goroutines w)"
    and gi: "goroutines w ! i = Schedule_select u t"
    and gj: "goroutines w ! j = Worker_select u"
    and w': "w' = w\<lparr>goroutines := (goroutines w)[i := Launch_check u, j := Worker_exec u t],
                accepted := accepted w @ [t]\<rparr>"
    by blast
  let ?f = "\<lambda>g. mset (executes g)"
  let ?gs = "goroutines w"
  have ne: "i \<noteq> j" using gi gj by auto
  have j': "j < length (?gs[i := Launch_check u])" using j by simp
  have "sum_list (map ?f (?gs[i := Launch_check u])) = sum_list (map ?f ?gs)"
    using sum_list_map_update [OF i, of ?f "Launch_check u"] gi by simp
  moreover have "sum_list (map ?f (?gs[i := Launch_check u, j := Worker_exec u t]))
                   = sum_list (map ?f (?gs[i := Launch_check u])) + {#t#}"
    using sum_list_map_update [OF j', of ?f "Worker_exec u t"] gj ne by simp
  ultimately have "in_flight w' = in_flight w + {#t#}"
    using w' by (simp add: in_flight_def)
  moreover have "stored w' = stored w" using w' by (simp add: stored_def)
  ultimately show ?thesis using inv w' by (simp add: accounted_def)
qed

lemma run_accounted: "accounted w \<Longrightarrow> run w as = Next w' \<Longrightarrow> accounted w'"
proof (induction as arbitrary: w)
  case Nil
  then show ?case by simp
next
  case (Cons a as)
  then show ?case by (auto split: outcome.splits dest: step_accounted)
qed

lemma new_world_accounted:
  "NewDynamicThreadPool maxPriority maxNormal = Some p \<Longrightarrow> accounted (new_world p)"
  by (auto simp: NewDynamicThreadPool_def new_world_def accounted_def stored_def in_flight_def
      make_chan_def split: if_splits)


lemma s_thread_step_accounted:
  assumes st: "s_thread_step w pc c = Next (pc', sp, w')"
  shows "mset (s_accepted w') + (mset (s_executes pc) + s_stored w)
           = mset (s_accepted w)
             + (mset (s_executes pc') + sum_list (map (\<lambda>g. mset (s_executes g)) sp)
                + s_stored w')"
proof (cases pc)
  case (SStart_loop hp i)
  then show ?thesis using st by (auto simp: s_stored_def split: if_splits)
next
  case (SStop_loop i)
  then show ?thesis using st
    by (auto simp: s_stored_def chan_send_Next split: if_splits outcome.splits)
next
  case SStop_wait
  then show ?thesis using st by (auto split: if_splits)
next
  case (SSchedule_send u t)
  then show ?thesis using st
    by (cases u)
       (auto simp: s_stored_def chan_send_Next s_set_taskCh_def s_taskCh_def split: outcome.splits)
next
  case (Do_select pr)
  then show ?thesis using st
    by (cases c)
       (auto simp: s_stored_def chan_recv_Next
          split: outcome.splits prod.splits if_splits list.splits)
next
  case (Do_exec pr t)
  then show ?thesis using st by (cases t) (auto simp: s_stored_def)
next
  case Do_done
  then show ?thesis using st by (auto simp: s_stored_def split: if_splits)
qed (use st in \<open>auto simp: s_stored_def chan_close_Next split: outcome.splits\<close>)

lemma s_step_accounted:
  assumes inv: "s_accounted w" and st: "s_step w a = Next w'"
  shows "s_accounted w'"
proof (cases a)
  case SCall_Start
  then show ?thesis using inv st
    by (auto simp: s_step_def s_accounted_def s_stored_def s_in_flight_def)
next
  case SCall_Stop
  then show ?thesis using inv st
    by (auto simp: s_step_def s_accounted_def s_stored_def s_in_flight_def)
next
  case (SCall_Schedule u t)
  then show ?thesis using inv st
    by (auto simp: s_step_def s_accounted_def s_stored_def s_in_flight_def)
next
  case (SStep i c)
  show ?thesis
  proof (cases "i < length (s_goroutines w)")
    case True
    then obtain pc' sp w1 where ts: "s_thread_step w (s_goroutines w ! i) c = Next (pc', sp, w1)"
      and w': "w' = w1\<lparr>s_goroutines := (s_goroutines w)[i := pc'] @ sp\<rparr>"
      using st SStep by (auto simp: s_step_def split: outcome.splits)
    let ?f = "\<lambda>g. mset (s_executes g)"
    have 1: "s_in_flight w' + ?f (s_goroutines w ! i)
               = s_in_flight w + ?f pc' + sum_list (map ?f sp)"
      using sum_list_map_update [OF True, of ?f pc'] w'
      by (simp add: s_in_flight_def ac_simps)
    have 2: "s_stored w' = s_stored w1" "s_accepted w' = s_accepted w1"
      using w' by (simp_all add: s_stored_def)
    have "mset (s_accepted w') + (?f (s_goroutines w ! i) + s_stored w)
            = (s_stored w' + s_in_flight w') + (?f (s_goroutines w ! i) + s_stored w)"
      using s_thread_step_accounted [OF ts] inv 1 2
      by (simp add: s_accounted_def ac_simps)
    then show ?thesis by (simp add: s_accounted_def)
  next
    case False
    then show ?thesis using st SStep by (simp add: s_step_def)
  qed
next
  case (SHandoff i j)
  with st have h: "s_handoff w i j = Next w'" by (simp add: s_step_def)
  from s_handoff_Next [OF h] obtain u t pr where
    i: "i < length (s_goroutines w)" and j: "j < length (s_goroutines w)"
    and gi: "s_goroutines w ! i = SSchedule_send u t"
    and gj: "s_goroutines w ! j = Do_select pr"
    and w': "w' = w\<lparr>s_goroutines := (s_goroutines w)[i := SSchedule_ret, j := Do_exec pr (Some t)],
                s_accepted := s_accepted w @ [t]\<rparr>"
    by blast
  let ?f = "\<lambda>g. mset (s_executes g)"
  let ?gs = "s_goroutines w"
  have ne: "i \<noteq> j" using gi gj by auto
  have j': "j < length (?gs[i := SSchedule_ret])" using j by simp
  have "sum_list (map ?f (?gs[i := SSchedule_ret])) = sum_list (map ?f ?gs)"
    using sum_list_map_update [OF i, of ?f SSchedule_ret] gi by simp
  moreover have "sum_list (map ?f (?gs[i := SSchedule_ret, j := Do_exec pr (Some t)]))
                   = sum_list (map ?f (?gs[i := SSchedule_ret])) + {#t#}"
    using sum_list_map_update [OF j', of ?f "Do_exec pr (Some t)"] gj ne by simp
  ultimately have "s_in_flight w' = s_in_flight w + {#t#}"
    using w' by (simp add: s_in_flight_def)
  moreover have "s_stored w' = s_stored w" using w' by (simp add: s_stored_def)
  ultimately show ?thesis using inv w' by (simp add: s_accounted_def)
qed

lemma s_run_accounted: "s_accounted w \<Longrightarrow> s_run w as = Next w' \<Longrightarrow> s_accounted w'"
proof (induction as arbitrary: w)
  case Nil
  then show ?case by simp
next
  case (Cons a as)
  then show ?case by (auto split: outcome.splits dest: s_step_accounted)
qed

lemma new_sworld_accounted:
  "NewStaticThreadPool cnt = Some p \<Longrightarrow> s_accounted (new_sworld p)"
  by (auto simp: NewStaticThreadPool_def new_sworld_def s_accounted_def s_stored_def
      s_in_flight_def make_chan_def split: if_splits)

text \<open>\<^verbatim>\<open>Stop\<close> does not drain the queues. Dynamic pool, ceilings 1 and 1:
  \<^verbatim>\<open>Schedule(true, 7)\<close> returns \<^verbatim>\<open>true\<close> with the task queued and its worker started;
  \<^verbatim>\<open>Stop\<close> closes \<^verbatim>\<open>closeCh\<close>; the worker's \<^verbatim>\<open>select\<close> takes the shutdown case
  and the worker exits; \<^verbatim>\<open>Stop\<close> returns. Static pool, one worker: the task is queued,
  \<^verbatim>\<open>Stop\<close> sends its signal, the worker's \<^verbatim>\<open>select\<close> takes it and the worker exits;
  \<^verbatim>\<open>Stop\<close> returns. In both runs every goroutine has finished and the accepted task is
  still in its queue, not executed. This refutes C2 as stated.\<close>

theorem accepted_task_left_unexecuted:
  "(\<exists>p w. NewDynamicThreadPool 1 1 = Some p
      \<and> run (new_world p)
           [Call_Schedule True (7::nat), Step 0 Case_task, Step 0 Case_task, Step 0 Case_task,
            Step 0 Case_task, Step 0 Case_task, Step 0 Case_task, Step 0 Case_task,
            Call_Stop, Step 2 Case_close, Step 2 Case_close, Step 2 Case_close,
            Step 1 Case_close, Step 1 Case_close, Step 1 Case_close, Step 1 Case_close,
            Step 2 Case_close, Step 2 Case_close, Step 2 Case_close, Step 2 Case_close,
            Step 2 Case_close, Step 2 Case_close] = Next w
      \<and> goroutines w = [Schedule_ret True, Worker_exit, Stop_ret]
      \<and> accepted w = [7] \<and> executed w = [] \<and> ch_buf (priorityCh (pool w)) = [7])
   \<and> (\<exists>p w. NewStaticThreadPool 1 = Some p
      \<and> s_run (new_sworld p)
           [SCall_Start, SStep 0 Case_task, SStep 0 Case_task, SStep 0 Case_task,
            SStep 0 Case_task,
            SCall_Schedule True (7::nat), SStep 2 Case_task,
            SCall_Stop, SStep 3 Case_close, SStep 3 Case_close,
            SStep 1 Case_close, SStep 1 Case_close,
            SStep 3 Case_close, SStep 3 Case_close, SStep 3 Case_close, SStep 3 Case_close]
           = Next w
      \<and> s_goroutines w = [SStart_ret, Do_exit, SSchedule_ret, SStop_ret]
      \<and> s_accepted w = [7] \<and> s_executed w = [] \<and> ch_buf (s_priorityCh (s_pool w)) = [7])"
  by (simp add: eval_simps s_eval_simps)

text \<open>C2, as far as it holds: in every run of either pool the accepted tasks are, as a
  multiset, exactly the tasks in the two queues, the tasks in the hand of a worker and the
  executed tasks. So no accepted task is executed twice and none disappears: it is queued,
  or held by one worker, or executed once.\<close>

theorem accepted_tasks_accounted:
  "(NewDynamicThreadPool maxPriority maxNormal = Some p \<and> run (new_world p) as = Next w \<longrightarrow>
      mset (accepted w) = stored w + in_flight w
      \<and> mset (executed w) \<subseteq># mset (accepted w))
   \<and> (NewStaticThreadPool cnt = Some sp \<and> s_run (new_sworld sp) sas = Next sw \<longrightarrow>
      mset (s_accepted sw) = s_stored sw + s_in_flight sw
      \<and> mset (s_executed sw) \<subseteq># mset (s_accepted sw))"
proof -
  have 1: "mset (accepted w) = stored w + in_flight w
      \<and> mset (executed w) \<subseteq># mset (accepted w)"
    if "NewDynamicThreadPool maxPriority maxNormal = Some p" "run (new_world p) as = Next w"
  proof -
    have "accounted w" using run_accounted [OF new_world_accounted [OF that(1)] that(2)] .
    then show ?thesis by (simp add: accounted_def stored_def)
  qed
  have 2: "mset (s_accepted sw) = s_stored sw + s_in_flight sw
      \<and> mset (s_executed sw) \<subseteq># mset (s_accepted sw)"
    if "NewStaticThreadPool cnt = Some sp" "s_run (new_sworld sp) sas = Next sw"
  proof -
    have "s_accounted sw" using s_run_accounted [OF new_sworld_accounted [OF that(1)] that(2)] .
    then show ?thesis by (simp add: s_accounted_def s_stored_def)
  qed
  from 1 2 show ?thesis by blast
qed

theorem accepted_tasks_accounted_witness:
  "\<exists>p w sp sw. NewDynamicThreadPool 1 1 = Some p
      \<and> run (new_world p)
           [Call_Schedule True (7::nat), Step 0 Case_task, Step 0 Case_task, Step 0 Case_task,
            Step 0 Case_task, Step 0 Case_task, Step 0 Case_task, Step 0 Case_task,
            Call_Schedule False 8, Step 2 Case_task, Step 2 Case_task,
            Step 1 Case_task, Step 1 Case_task] = Next w
      \<and> accepted w = [7, 8] \<and> executed w = [7] \<and> ch_buf (normalCh (pool w)) = [8]
      \<and> mset (accepted w) = stored w + in_flight w
      \<and> mset (executed w) \<subseteq># mset (accepted w)
      \<and> NewStaticThreadPool 1 = Some sp
      \<and> s_run (new_sworld sp)
           [SCall_Start, SStep 0 Case_task, SStep 0 Case_task, SStep 0 Case_task,
            SCall_Schedule True (7::nat), SStep 2 Case_task,
            SCall_Schedule False 8, SStep 3 Case_task,
            SStep 1 Case_normal] = Next sw
      \<and> s_accepted sw = [7, 8] \<and> s_executed sw = []
      \<and> s_goroutines sw ! 1 = Do_exec False (Some 8)
      \<and> mset (s_accepted sw) = s_stored sw + s_in_flight sw
      \<and> mset (s_executed sw) \<subseteq># mset (s_accepted sw)"
proof -
  obtain p :: "nat DynamicThreadPool" where p: "NewDynamicThreadPool 1 1 = Some p"
    by (simp add: NewDynamicThreadPool_def)
  obtain w where w: "run (new_world p)
           [Call_Schedule True (7::nat), Step 0 Case_task, Step 0 Case_task, Step 0 Case_task,
            Step 0 Case_task, Step 0 Case_task, Step 0 Case_task, Step 0 Case_task,
            Call_Schedule False 8, Step 2 Case_task, Step 2 Case_task,
            Step 1 Case_task, Step 1 Case_task] = Next w"
    and w1: "accepted w = [7, 8]" "executed w = [7]" "ch_buf (normalCh (pool w)) = [8]"
    using p by (auto simp: eval_simps)
  obtain sp :: "nat StaticThreadPool" where sp: "NewStaticThreadPool 1 = Some sp"
    by (simp add: NewStaticThreadPool_def)
  obtain sw where sw: "s_run (new_sworld sp)
           [SCall_Start, SStep 0 Case_task, SStep 0 Case_task, SStep 0 Case_task,
            SCall_Schedule True (7::nat), SStep 2 Case_task,
            SCall_Schedule False 8, SStep 3 Case_task,
            SStep 1 Case_normal] = Next sw"
    and sw1: "s_accepted sw = [7, 8]" "s_executed sw = []"
      "s_goroutines sw ! 1 = Do_exec False (Some 8)"
    using sp by (auto simp: s_eval_simps)
  from accepted_tasks_accounted [of 1 1 p _ w 1 sp _ sw] p w sp sw
  have "mset (accepted w) = stored w + in_flight w
      \<and> mset (executed w) \<subseteq># mset (accepted w)
      \<and> mset (s_accepted sw) = s_stored sw + s_in_flight sw
      \<and> mset (s_executed sw) \<subseteq># mset (s_accepted sw)"
    by blast
  with p w w1 sp sw sw1 show ?thesis by blast
qed

end
